theory Spec2Isabelle
  imports Main "HOL-Library.Word" "HOL-Library.Multiset"
begin

section \<open>JavaScript values read from the store\<close>

text \<open>
  The records of the remote store are JSON. A field that the scripts only test
  (with \<open>===\<close>, \<open>!\<close>, \<open>||\<close> or as a condition) is kept as a JavaScript value, so
  that strict equality and truthiness are the ones of the language. A missing
  field reads as \<open>undefined\<close>. Numbers are the integer-valued ones.
\<close>

datatype jsval = JUndefined | JNull | JBool bool | JNum int | JStr string

fun truthy :: "jsval \<Rightarrow> bool" where
  "truthy JUndefined = False"
| "truthy JNull = False"
| "truthy (JBool b) = b"
| "truthy (JNum n) = (n \<noteq> 0)"
| "truthy (JStr s) = (s \<noteq> [])"

text \<open>\<open>!v\<close>: the negation of the truthiness, always a boolean.\<close>

definition js_not :: "jsval \<Rightarrow> jsval" where
  "js_not v = JBool (\<not> truthy v)"

fun is_boolean :: "jsval \<Rightarrow> bool" where
  "is_boolean (JBool b) = True"
| "is_boolean v = False"

section \<open>Tasks and subtasks\<close>

text \<open>
  A subtask is \<open>{name, completed}\<close>. The subtasks of a task are an object keyed
  by subtask id (or an array, whose keys are its indices): an association list in
  the order of \<open>Object.values\<close>, looked up by key. A task of the board and of
  the summary page is a pair \<open>{id, task}\<close>; \<open>task.subtasks\<close> is absent when the
  store holds none. The field \<open>assignedTo\<close> is not read by the functions below.
\<close>

record subtask =
  sub_name :: jsval
  completed :: jsval

type_synonym subtasks = "(string \<times> subtask) list"

record task_body =
  title :: jsval
  description :: jsval
  dueDate :: jsval
  priority :: jsval
  badge :: jsval
  category :: jsval
  subtasks :: "subtasks option"

record taskObj =
  task_id :: string
  task :: task_body

datatype js_error = TypeError

section \<open>Summary counters: \<open>updateCount\<close>\<close>

text \<open>The six module-level counters of the summary page.\<close>

record counters =
  ToDoCount :: nat
  doneCount :: nat
  urgencyCount :: nat
  taskCount :: nat
  progressCount :: nat
  feedbackCount :: nat

definition zero_counters :: counters where
  "zero_counters = \<lparr>ToDoCount = 0, doneCount = 0, urgencyCount = 0, taskCount = 0,
     progressCount = 0, feedbackCount = 0\<rparr>"

text \<open>The body of the \<open>forEach\<close> callback, on the counters as state.\<close>

definition countTask :: "counters \<Rightarrow> taskObj \<Rightarrow> counters" where
  "countTask s taskObj =
    (let t = task taskObj;
         s1 = s\<lparr>taskCount := taskCount s + 1\<rparr>;
         s2 = (if category t = JStr ''To-Do'' then s1\<lparr>ToDoCount := ToDoCount s1 + 1\<rparr>
               else if category t = JStr ''Done'' then s1\<lparr>doneCount := doneCount s1 + 1\<rparr>
               else if category t = JStr ''In Progress''
                 then s1\<lparr>progressCount := progressCount s1 + 1\<rparr>
               else if category t = JStr ''Await Feedback''
                 then s1\<lparr>feedbackCount := feedbackCount s1 + 1\<rparr>
               else s1)
     in if priority t = JStr ''urgent'' then s2\<lparr>urgencyCount := urgencyCount s2 + 1\<rparr>
        else s2)"

fun updateCount :: "counters \<Rightarrow> taskObj list \<Rightarrow> counters" where
  "updateCount s [] = s"
| "updateCount s (t # ts) = updateCount (countTask s t) ts"

text \<open>The number of tasks whose field \<open>f\<close> is strictly equal to the string \<open>v\<close>.\<close>

definition count_where :: "(task_body \<Rightarrow> jsval) \<Rightarrow> string \<Rightarrow> taskObj list \<Rightarrow> nat" where
  "count_where f v ts = length (filter (\<lambda>t. f (task t) = JStr v) ts)"

section \<open>Subtask progress and toggling\<close>

text \<open>The \<open>{completed, total}\<close> pair that \<open>calculateSubtaskProgress\<close> returns.\<close>

record progress =
  completed_count :: nat
  total :: nat

definition calculateSubtaskProgress :: "subtasks \<Rightarrow> progress" where
  "calculateSubtaskProgress sts =
    (let subtaskArray = map snd sts
     in if subtaskArray = [] then \<lparr>completed_count = 0, total = 0\<rparr>
        else \<lparr>completed_count = length (filter (\<lambda>s. completed s = JBool True) subtaskArray),
              total = length subtaskArray\<rparr>)"

text \<open>
  Writing a property of the object stored under a key: the entry of that key is
  replaced where it stands.
\<close>

fun set_entry :: "string \<Rightarrow> subtask \<Rightarrow> subtasks \<Rightarrow> subtasks" where
  "set_entry k v [] = []"
| "set_entry k v ((k', v') # rest) =
     (if k' = k then (k', v) # rest else (k', v') # set_entry k v rest)"

text \<open>
  \<open>toggleSubtask\<close> on the \<open>tasks\<close> array as state. Reading a property of
  \<open>undefined\<close> (a task index outside the array, a task without subtasks, a
  subtask id that names nothing) throws a \<open>TypeError\<close>. A subtask id that is not
  a key of the subtasks but a name found on their prototype chain
  (\<open>constructor\<close>, \<open>toString\<close>, and for an array also \<open>length\<close> or \<open>push\<close>) reads
  the inherited value: nothing is thrown, the write goes to that value or is
  dropped, and \<open>tasks\<close> stays as it is. Which names these are depends on whether
  the store returned an object or an array, so the predicate \<open>inherited\<close> is a
  parameter. The two refreshes that follow, \<open>updateSubtaskBar\<close> and
  \<open>updatePopupSubtasks\<close>, read \<open>tasks\<close> and write to the document only.
\<close>

definition toggleSubtask ::
  "(string \<Rightarrow> bool) \<Rightarrow> taskObj list \<Rightarrow> nat \<Rightarrow> string \<Rightarrow> js_error + taskObj list" where
  "toggleSubtask inherited tasks taskIndex subtaskId =
    (if taskIndex < length tasks then
       (let t = tasks ! taskIndex
        in case subtasks (task t) of
             None \<Rightarrow> Inl TypeError
           | Some sts \<Rightarrow>
               (case map_of sts subtaskId of
                  None \<Rightarrow> if inherited subtaskId then Inr tasks else Inl TypeError
                | Some st \<Rightarrow>
                    Inr (tasks[taskIndex := t\<lparr>task := (task t)\<lparr>subtasks :=
                      Some (set_entry subtaskId (st\<lparr>completed := js_not (completed st)\<rparr>) sts)\<rparr>\<rparr>])))
     else Inl TypeError)"

text \<open>Two calls with the same arguments, the second on the state the first left.\<close>

definition toggleTwice ::
  "(string \<Rightarrow> bool) \<Rightarrow> taskObj list \<Rightarrow> nat \<Rightarrow> string \<Rightarrow> js_error + taskObj list" where
  "toggleTwice inherited tasks taskIndex subtaskId =
    (case toggleSubtask inherited tasks taskIndex subtaskId of
       Inl e \<Rightarrow> Inl e
     | Inr tasks' \<Rightarrow> toggleSubtask inherited tasks' taskIndex subtaskId)"

text \<open>The names every plain object inherits from \<open>Object.prototype\<close>.\<close>

definition object_prototype_names :: "string list" where
  "object_prototype_names =
    [''constructor'', ''__proto__'', ''hasOwnProperty'', ''isPrototypeOf'',
     ''propertyIsEnumerable'', ''toLocaleString'', ''toString'', ''valueOf'',
     ''__defineGetter__'', ''__defineSetter__'', ''__lookupGetter__'', ''__lookupSetter__'']"

definition on_object_prototype :: "string \<Rightarrow> bool" where
  "on_object_prototype k = (k \<in> set object_prototype_names)"

text \<open>A board with one task and one subtask, whose \<open>completed\<close> field is the argument.\<close>

definition example_board :: "jsval \<Rightarrow> taskObj list" where
  "example_board flag =
    [\<lparr>task_id = ''t1'',
      task = \<lparr>title = JStr ''Plan'', description = JStr ''Kickoff'', dueDate = JStr ''2025-01-31'',
               priority = JStr ''urgent'', badge = JStr ''User Story'', category = JStr ''To-Do'',
               subtasks = Some [(''s1'', \<lparr>sub_name = JStr ''Agenda'', completed = flag\<rparr>)]\<rparr>\<rparr>]"

section \<open>Contacts in the store\<close>

text \<open>
  A stored contact. Sign-up writes \<open>{name, email, password}\<close>, the contact form
  \<open>{name, email, phone, color}\<close>: the fields one of them leaves out read as
  \<open>undefined\<close>. The name is a string in both, and the scripts call string methods
  on it. A collection is the list of the object's entries, in the order of
  \<open>Object.entries\<close>.
\<close>

record stored_contact =
  name :: string
  email :: jsval
  phone :: jsval
  password :: jsval
  color :: jsval

type_synonym contact_collection = "(string \<times> stored_contact) list"

text \<open>
  What a \<open>fetch\<close> followed by \<open>response.json()\<close> gives: either of them throws,
  or the JSON value arrives, \<open>null\<close> (\<open>None\<close>) where the store holds nothing.
\<close>

datatype 'a fetched = Throws | Json "'a option"

section \<open>Login\<close>

text \<open>
  What the login page does to the world: a class put on or taken off an element,
  a \<open>PUT\<close> of \<open>{name}\<close> to a path, a navigation, the alert. \<open>AfterMs\<close> is an
  action inside a \<open>setTimeout\<close> callback.
\<close>

datatype action =
    AddClass string string
  | RemoveClass string string
  | PutData string string
  | Navigate string
  | Alert

datatype effect = Now action | AfterMs nat action

fun is_currentUser_write :: "effect \<Rightarrow> bool" where
  "is_currentUser_write (Now (PutData path n)) = (path = ''currentUser'')"
| "is_currentUser_write (AfterMs ms (PutData path n)) = (path = ''currentUser'')"
| "is_currentUser_write e = False"

fun is_summary_redirect :: "effect \<Rightarrow> bool" where
  "is_summary_redirect (Now (Navigate url)) = (url = ''summary.html'')"
| "is_summary_redirect (AfterMs ms (Navigate url)) = (url = ''summary.html'')"
| "is_summary_redirect e = False"

definition processLogin :: "stored_contact option \<Rightarrow> effect list" where
  "processLogin signedUpContact =
    (case signedUpContact of
       Some c \<Rightarrow>
         [Now (AddClass ''task-created-popup'' ''show''),
          AfterMs 1500 (RemoveClass ''task-created-popup'' ''show''),
          AfterMs 1500 (PutData ''currentUser'' (name c)),
          AfterMs 1500 (Navigate ''summary.html'')]
     | None \<Rightarrow>
         [Now (AddClass ''task-created-popup2'' ''show''),
          AfterMs 1500 (RemoveClass ''task-created-popup2'' ''show'')])"

text \<open>The root of the store as \<open>login\<close> reads it: its \<open>contacts\<close> property, if any.\<close>

record store_root =
  contacts :: "contact_collection option"

text \<open>
  The body of the \<open>try\<close> block up to the call: either \<open>processLogin\<close> is called
  with the result of \<open>find\<close> (\<open>None\<close> is \<open>undefined\<close>), or an exception reaches
  the \<open>catch\<close>: the fetch threw, or the root was \<open>null\<close> and reading its
  \<open>contacts\<close> threw.
\<close>

datatype login_step = CallsProcessLogin "stored_contact option" | Caught

definition login_step :: "store_root fetched \<Rightarrow> string \<Rightarrow> string \<Rightarrow> login_step" where
  "login_step response enteredEmail enteredPassword =
    (case response of
       Throws \<Rightarrow> Caught
     | Json None \<Rightarrow> Caught
     | Json (Some contactAsJson) \<Rightarrow>
         CallsProcessLogin
           (find (\<lambda>c. email c = JStr enteredEmail \<and> password c = JStr enteredPassword)
              (map snd (case contacts contactAsJson of None \<Rightarrow> [] | Some cs \<Rightarrow> cs))))"

definition login :: "store_root fetched \<Rightarrow> string \<Rightarrow> string \<Rightarrow> effect list" where
  "login response enteredEmail enteredPassword =
    (case login_step response enteredEmail enteredPassword of
       CallsProcessLogin signedUpContact \<Rightarrow> processLogin signedUpContact
     | Caught \<Rightarrow> [Now Alert])"

text \<open>A store with two accounts, one made by sign-up and one by the contact form.\<close>

definition example_accounts :: contact_collection where
  "example_accounts =
    [(''-K1'', \<lparr>name = ''Ada Lovelace'', email = JStr ''ada@example.com'', phone = JUndefined,
               password = JStr ''secret'', color = JUndefined\<rparr>),
     (''-K2'', \<lparr>name = ''Bob Stone'', email = JStr ''bob@example.com'', phone = JStr ''0123'',
               password = JUndefined, color = JStr ''#A3C5D8''\<rparr>)]"

section \<open>Strings\<close>

text \<open>
  \<open>s.split(" ")\<close>: the segments between the spaces, of which there is always at
  least one; \<open>"".split(" ")\<close> is \<open>[""]\<close>.
\<close>

fun split_space :: "string \<Rightarrow> string list" where
  "split_space [] = [[]]"
| "split_space (c # cs) =
     (if c = CHR '' '' then [] # split_space cs
      else (case split_space cs of
              [] \<Rightarrow> [[c]]
            | part # parts \<Rightarrow> (c # part) # parts))"

text \<open>
  A non-negative integer in a template literal: its decimal digits, without
  leading zeros.
\<close>

definition digit_char :: "nat \<Rightarrow> char" where
  "digit_char d = ''0123456789'' ! d"

fun number_toString :: "nat \<Rightarrow> string" where
  "number_toString n =
     (if n < 10 then [digit_char n] else number_toString (n div 10) @ [digit_char (n mod 10)])"

declare number_toString.simps [simp del]

text \<open>Reading decimal digits back, used to tell apart the labels of two indices.\<close>

definition parse_digits :: "string \<Rightarrow> nat" where
  "parse_digits s = foldl (\<lambda>a c. 10 * a + (of_char c - (48::nat))) 0 s"

text \<open>
  \<open>toUpperCase\<close> is the language's; the functions below take it as a parameter.
  On ASCII it is this one.
\<close>

definition char_code :: "char \<Rightarrow> nat" where
  "char_code c = of_char c"

definition ascii_toUpperCase :: "string \<Rightarrow> string" where
  "ascii_toUpperCase s =
     map (\<lambda>c. case map_of (zip ''abcdefghijklmnopqrstuvwxyz'' ''ABCDEFGHIJKLMNOPQRSTUVWXYZ'') c of
                 Some u \<Rightarrow> u
               | None \<Rightarrow> c) s"

section \<open>Initials of the current user: \<open>getInitials\<close>\<close>

text \<open>
  The callback \<open>part => part[0].toUpperCase()\<close>: on the empty string \<open>part[0]\<close> is
  \<open>undefined\<close> and the method call throws.
\<close>

fun initial_of :: "(string \<Rightarrow> string) \<Rightarrow> string \<Rightarrow> js_error + string" where
  "initial_of toUpperCase [] = Inl TypeError"
| "initial_of toUpperCase (c # cs) = Inr (toUpperCase [c])"

text \<open>\<open>Array.prototype.map\<close> with a callback that may throw: the first throw ends it.\<close>

fun map_throwing :: "('a \<Rightarrow> js_error + 'b) \<Rightarrow> 'a list \<Rightarrow> js_error + 'b list" where
  "map_throwing f [] = Inr []"
| "map_throwing f (x # xs) =
     (case f x of
        Inl e \<Rightarrow> Inl e
      | Inr y \<Rightarrow> (case map_throwing f xs of Inl e \<Rightarrow> Inl e | Inr ys \<Rightarrow> Inr (y # ys)))"

text \<open>The name is \<open>currentUser.name\<close>; \<open>None\<close> is a missing name.\<close>

definition getInitials :: "(string \<Rightarrow> string) \<Rightarrow> string option \<Rightarrow> js_error + string" where
  "getInitials toUpperCase name_opt =
    (case name_opt of
       None \<Rightarrow> Inr ''G''
     | Some n \<Rightarrow>
         if n = [] \<or> n = ''guest'' then Inr ''G''
         else (case map_throwing (initial_of toUpperCase) (split_space n) of
                 Inl e \<Rightarrow> Inl e
               | Inr initials \<Rightarrow> Inr (take 2 (concat initials))))"

section \<open>Assigned contacts of a new task: \<open>getAssignedContacts\<close>\<close>

text \<open>
  A contact as the loaders return it: the stored fields and the \<open>id\<close>, the key of
  the record in the store.
\<close>

record contact = stored_contact +
  contact_id :: string

text \<open>The \<open>{name, color}\<close> copy kept in a task.\<close>

record snapshot =
  snap_name :: string
  snap_color :: jsval

text \<open>
  \<open>obj[key] = value\<close> on an object as the list of its entries: an existing key
  keeps its place, a new one goes to the end.
\<close>

fun set_property :: "string \<Rightarrow> 'v \<Rightarrow> (string \<times> 'v) list \<Rightarrow> (string \<times> 'v) list" where
  "set_property k v [] = [(k, v)]"
| "set_property k v ((k', v') # rest) =
     (if k' = k then (k', v) # rest else (k', v') # set_property k v rest)"

text \<open>The \<open>reduce\<close> callback's key for an index, \<open>contact${index + 1}\<close>.\<close>

definition contact_label :: "nat \<Rightarrow> string" where
  "contact_label index = ''contact'' @ number_toString (index + 1)"

definition snapshot_of :: "contact \<Rightarrow> snapshot" where
  "snapshot_of c = \<lparr>snap_name = name c, snap_color = color c\<rparr>"

text \<open>\<open>reduce\<close> from the accumulator \<open>assignedTo\<close> and the index of the next element.\<close>

fun reduce_assigned ::
  "(string \<times> snapshot) list \<Rightarrow> nat \<Rightarrow> contact list \<Rightarrow> (string \<times> snapshot) list" where
  "reduce_assigned assignedTo index [] = assignedTo"
| "reduce_assigned assignedTo index (c # cs) =
     reduce_assigned (set_property (contact_label index) (snapshot_of c) assignedTo) (index + 1) cs"

datatype assigned = EmptyString | AssignedTo "(string \<times> snapshot) list"

definition getAssignedContacts :: "contact list \<Rightarrow> assigned" where
  "getAssignedContacts selectedContacts =
    (if length selectedContacts > 0 then AssignedTo (reduce_assigned [] 0 selectedContacts)
     else EmptyString)"

definition example_selected :: "contact list" where
  "example_selected =
    [\<lparr>name = ''Ada Lovelace'', email = JStr ''ada@example.com'', phone = JUndefined,
      password = JUndefined, color = JStr ''#FF7A00'', contact_id = ''-K1''\<rparr>,
     \<lparr>name = ''Bob Stone'', email = JStr ''bob@example.com'', phone = JStr ''0123'',
      password = JUndefined, color = JStr ''#A3C5D8'', contact_id = ''-K2''\<rparr>]"

section \<open>Regular expressions of the form validation\<close>

text \<open>
  Strings are lists of code units below 256. A character class is a predicate
  on code units; \<open>\s\<close> is the white space and the line terminators of the
  language that lie below 256.
\<close>

definition in_range :: "char \<Rightarrow> char \<Rightarrow> char \<Rightarrow> bool" where
  "in_range lo hi c = (char_code lo \<le> char_code c \<and> char_code c \<le> char_code hi)"

definition is_space :: "char \<Rightarrow> bool" where
  "is_space c = (char_code c \<in> {9, 10, 11, 12, 13, 32, 160})"

definition is_digit :: "char \<Rightarrow> bool" where
  "is_digit c = in_range CHR ''0'' CHR ''9'' c"

definition is_letter :: "char \<Rightarrow> bool" where
  "is_letter c = (in_range CHR ''a'' CHR ''z'' c \<or> in_range CHR ''A'' CHR ''Z'' c)"

text \<open>\<open>s.trim()\<close>\<close>

definition trim :: "string \<Rightarrow> string" where
  "trim s = rev (dropWhile is_space (rev (dropWhile is_space s)))"

text \<open>
  The patterns use classes, sequence and the quantifiers \<open>+\<close> and \<open>{m,n}\<close>,
  between \<open>^\<close> and \<open>$\<close>. \<open>Never\<close> and \<open>Alt\<close> arise in derivatives and in the
  unfolding of \<open>{m,n}\<close>.
\<close>

datatype regex =
    Never
  | Empty
  | Class "char \<Rightarrow> bool"
  | Seq regex regex
  | Alt regex regex
  | Star regex

definition Lit :: "char \<Rightarrow> regex" where
  "Lit c = Class (\<lambda>x. x = c)"

definition Plus :: "regex \<Rightarrow> regex" where
  "Plus r = Seq r (Star r)"

fun Exactly :: "nat \<Rightarrow> regex \<Rightarrow> regex" where
  "Exactly 0 r = Empty"
| "Exactly (Suc n) r = Seq r (Exactly n r)"

fun AtMost :: "nat \<Rightarrow> regex \<Rightarrow> regex" where
  "AtMost 0 r = Empty"
| "AtMost (Suc n) r = Alt Empty (Seq r (AtMost n r))"

text \<open>\<open>r{m,n}\<close>\<close>

definition Between :: "nat \<Rightarrow> nat \<Rightarrow> regex \<Rightarrow> regex" where
  "Between m n r = Seq (Exactly m r) (AtMost (n - m) r)"

text \<open>
  \<open>pattern.test(s)\<close> for a pattern anchored at both ends, without flags: the whole
  string matches. Matching is by derivatives.
\<close>

fun nullable :: "regex \<Rightarrow> bool" where
  "nullable Never = False"
| "nullable Empty = True"
| "nullable (Class p) = False"
| "nullable (Seq r s) = (nullable r \<and> nullable s)"
| "nullable (Alt r s) = (nullable r \<or> nullable s)"
| "nullable (Star r) = True"

fun deriv :: "char \<Rightarrow> regex \<Rightarrow> regex" where
  "deriv c Never = Never"
| "deriv c Empty = Never"
| "deriv c (Class p) = (if p c then Empty else Never)"
| "deriv c (Seq r s) =
     (if nullable r then Alt (Seq (deriv c r) s) (deriv c s) else Seq (deriv c r) s)"
| "deriv c (Alt r s) = Alt (deriv c r) (deriv c s)"
| "deriv c (Star r) = Seq (deriv c r) (Star r)"

fun regex_test :: "regex \<Rightarrow> string \<Rightarrow> bool" where
  "regex_test r [] = nullable r"
| "regex_test r (c # cs) = regex_test (deriv c r) cs"

text \<open>The strings a pattern denotes.\<close>

definition conc :: "string set \<Rightarrow> string set \<Rightarrow> string set" where
  "conc A B = {u @ v | u v. u \<in> A \<and> v \<in> B}"

inductive_set star :: "string set \<Rightarrow> string set" for A :: "string set" where
  star_nil: "[] \<in> star A"
| star_step: "u \<in> A \<Longrightarrow> v \<in> star A \<Longrightarrow> u @ v \<in> star A"

fun lang :: "regex \<Rightarrow> string set" where
  "lang Never = {}"
| "lang Empty = {[]}"
| "lang (Class p) = {[c] | c. p c}"
| "lang (Seq r s) = conc (lang r) (lang s)"
| "lang (Alt r s) = lang r \<union> lang s"
| "lang (Star r) = star (lang r)"

section \<open>Contact form: \<open>saveNewContact\<close>\<close>

text \<open>\<open>/^[^\s@]+@[a-zA-Z0-9-]+\.[a-zA-Z]{2,6}$/\<close>\<close>

definition emailPattern :: regex where
  "emailPattern =
     Seq (Plus (Class (\<lambda>c. \<not> (is_space c \<or> c = CHR ''@''))))
    (Seq (Lit CHR ''@'')
    (Seq (Plus (Class (\<lambda>c. is_letter c \<or> is_digit c \<or> c = CHR ''-'')))
    (Seq (Lit CHR ''.'')
         (Between 2 6 (Class is_letter)))))"

definition validateEmail :: "string \<Rightarrow> bool" where
  "validateEmail e = regex_test emailPattern e"

text \<open>\<open>/^[0-9]+$/\<close>\<close>

definition phonePattern :: regex where
  "phonePattern = Plus (Class is_digit)"

definition validatePhone :: "string \<Rightarrow> bool" where
  "validatePhone p = regex_test phonePattern p"

text \<open>
  A random source: the successive values of \<open>Math.floor(Math.random() * 16)\<close>,
  each one of sixteen, and the number of values drawn so far.
\<close>

type_synonym random_source = "nat \<Rightarrow> 4 word"

definition letters :: string where
  "letters = ''0123456789ABCDEF''"

text \<open>The \<open>for\<close> loop of \<open>generateRandomColor\<close>, by the iterations left.\<close>

fun color_loop :: "random_source \<Rightarrow> nat \<Rightarrow> nat \<Rightarrow> string \<Rightarrow> string" where
  "color_loop rnd drawn 0 color_acc = color_acc"
| "color_loop rnd drawn (Suc left) color_acc =
     color_loop rnd (drawn + 1) left (color_acc @ [letters ! unat (rnd drawn)])"

definition generateRandomColor :: "random_source \<Rightarrow> nat \<Rightarrow> string \<times> nat" where
  "generateRandomColor rnd drawn = (color_loop rnd drawn 6 ''#'', drawn + 6)"

text \<open>
  What the contact form does: an error message shown, the \<open>POST\<close> of a new
  contact, the handling of a successful save, a logged error.
\<close>

datatype form_effect =
    ShowErrorMessage string
  | PostContact stored_contact
  | HandleSuccessfulSave stored_contact
  | ConsoleError

fun is_post :: "form_effect \<Rightarrow> bool" where
  "is_post (PostContact c) = True"
| "is_post e = False"

fun is_error_message :: "form_effect \<Rightarrow> bool" where
  "is_error_message (ShowErrorMessage m) = True"
| "is_error_message e = False"

text \<open>The messages shown, and the value returned.\<close>

definition validateContactFields :: "string \<Rightarrow> string \<Rightarrow> string \<Rightarrow> form_effect list \<times> bool" where
  "validateContactFields n e p =
    (if n = [] \<or> e = [] \<or> p = [] then ([ShowErrorMessage ''Please complete all fields.''], False)
     else if length (split_space n) < 2
       then ([ShowErrorMessage ''Please enter your first and last name.''], False)
     else if \<not> validateEmail e
       then ([ShowErrorMessage ''Please enter a valid email address.''], False)
     else if \<not> validatePhone p
       then ([ShowErrorMessage ''Please enter a valid phone number.''], False)
     else ([], True))"

definition getContactFormValues :: "string \<Rightarrow> string \<Rightarrow> string \<Rightarrow> string \<times> string \<times> string" where
  "getContactFormValues nameField emailField phoneField =
     (trim nameField, trim emailField, trim phoneField)"

definition createNewContact ::
  "random_source \<Rightarrow> nat \<Rightarrow> string \<Rightarrow> string \<Rightarrow> string \<Rightarrow> stored_contact" where
  "createNewContact rnd drawn n e p =
     \<lparr>name = n, email = JStr e, phone = JStr p, password = JUndefined,
      color = JStr (fst (generateRandomColor rnd drawn))\<rparr>"

text \<open>The \<open>fetch\<close> of \<open>saveContactToDatabase\<close>: it throws, or a response arrives with its \<open>ok\<close> flag.\<close>

datatype post_outcome = PostThrows | PostResponse bool

definition saveNewContact ::
  "random_source \<Rightarrow> nat \<Rightarrow> post_outcome \<Rightarrow> string \<Rightarrow> string \<Rightarrow> string \<Rightarrow> form_effect list" where
  "saveNewContact rnd drawn outcome nameField emailField phoneField =
    (case getContactFormValues nameField emailField phoneField of
       (n, e, p) \<Rightarrow>
         (case validateContactFields n e p of
            (shown, False) \<Rightarrow> shown
          | (shown, True) \<Rightarrow>
              (let newContact = createNewContact rnd drawn n e p
               in shown @ [PostContact newContact] @
                  (case outcome of
                     PostThrows \<Rightarrow> [ConsoleError]
                   | PostResponse ok \<Rightarrow> if ok then [HandleSuccessfulSave newContact] else []))))"

section \<open>Loading contacts and tasks\<close>

text \<open>
  \<open>localeCompare\<close> is the language's and depends on the locale: the functions
  below take it as a parameter. It is a consistent comparator when the order it
  induces is total and transitive, which is what \<open>Array.prototype.sort\<close> asks
  for.
\<close>

definition consistent_comparator :: "(string \<Rightarrow> string \<Rightarrow> int) \<Rightarrow> bool" where
  "consistent_comparator cmp \<longleftrightarrow>
     (\<forall>a b. 0 < cmp a b \<longrightarrow> cmp b a \<le> 0)
     \<and> (\<forall>a b c. cmp a b \<le> 0 \<and> cmp b c \<le> 0 \<longrightarrow> cmp a c \<le> 0)"

text \<open>A comparator for examples: by code units, a prefix first.\<close>

fun codeunit_compare :: "string \<Rightarrow> string \<Rightarrow> int" where
  "codeunit_compare [] [] = 0"
| "codeunit_compare [] (y # ys) = - 1"
| "codeunit_compare (x # xs) [] = 1"
| "codeunit_compare (x # xs) (y # ys) =
     (if char_code x < char_code y then - 1
      else if char_code y < char_code x then 1
      else codeunit_compare xs ys)"

text \<open>
  \<open>sort((a, b) => a.name.localeCompare(b.name))\<close>. The sort of the language is
  stable, and under a consistent comparator its result is the one stable sorted
  arrangement, which insertion from the right computes.
\<close>

fun insert_by_name :: "(string \<Rightarrow> string \<Rightarrow> int) \<Rightarrow> contact \<Rightarrow> contact list \<Rightarrow> contact list" where
  "insert_by_name cmp x [] = [x]"
| "insert_by_name cmp x (y # ys) =
     (if cmp (name x) (name y) \<le> 0 then x # y # ys else y # insert_by_name cmp x ys)"

definition sort_by_name :: "(string \<Rightarrow> string \<Rightarrow> int) \<Rightarrow> contact list \<Rightarrow> contact list" where
  "sort_by_name cmp xs = foldr (insert_by_name cmp) xs []"

text \<open>
  A contact record as the contacts page fetches it. Besides the fields of a
  stored contact it may hold an \<open>id\<close> of its own: \<open>createUpdatedContact\<close> writes
  \<open>{id: contactId, ...existingContact, name, email, phone}\<close> back to the store,
  where \<open>contactId\<close> is the key of the record.
\<close>

record fetched_contact = stored_contact +
  own_id :: "string option"

type_synonym fetched_contacts = "(string \<times> fetched_contact) list"

text \<open>Every record that holds an \<open>id\<close> holds its own key there, as the writers leave it.\<close>

definition ids_agree :: "fetched_contacts \<Rightarrow> bool" where
  "ids_agree data = list_all (\<lambda>(key, c). own_id c = None \<or> own_id c = Some key) data"

text \<open>
  The \<open>map\<close> callback \<open>([id, contact]) => ({id, ...contact, color: contact.color ||
  generateRandomColor()})\<close> over the entries, with the number of random values
  drawn so far as state: a colour is drawn only where the stored one is falsy.
  The spread comes after \<open>id\<close>, so an \<open>id\<close> held by the record replaces the key.
\<close>

fun with_colors :: "random_source \<Rightarrow> nat \<Rightarrow> fetched_contacts \<Rightarrow> contact list \<times> nat" where
  "with_colors rnd drawn [] = ([], drawn)"
| "with_colors rnd drawn ((key, c) # rest) =
     (let (col, drawn1) =
            (if truthy (color c) then (color c, drawn)
             else (JStr (fst (generateRandomColor rnd drawn)), snd (generateRandomColor rnd drawn)));
          (cs, drawn2) = with_colors rnd drawn1 rest
      in (\<lparr>name = name c, email = email c, phone = phone c, password = password c,
           color = col, contact_id = (case own_id c of None \<Rightarrow> key | Some i \<Rightarrow> i)\<rparr> # cs,
          drawn2))"

definition processContacts ::
  "(string \<Rightarrow> string \<Rightarrow> int) \<Rightarrow> random_source \<Rightarrow> nat \<Rightarrow> fetched_contacts \<Rightarrow> contact list \<times> nat" where
  "processContacts cmp rnd drawn data =
     (case with_colors rnd drawn data of (cs, drawn1) \<Rightarrow> (sort_by_name cmp cs, drawn1))"

definition prepareSortedContacts ::
  "(string \<Rightarrow> string \<Rightarrow> int) \<Rightarrow> random_source \<Rightarrow> nat \<Rightarrow> fetched_contacts \<Rightarrow> contact list \<times> nat" where
  "prepareSortedContacts cmp rnd drawn data =
     (case with_colors rnd drawn data of (cs, drawn1) \<Rightarrow> (sort_by_name cmp cs, drawn1))"

text \<open>The nodes appended to the contacts area.\<close>

datatype node = LetterElement string | DividerElement | ContactElement contact string

text \<open>\<open>s.charAt(0)\<close>: the first code unit as a string, or the empty string.\<close>

definition charAt0 :: "string \<Rightarrow> string" where
  "charAt0 s = take 1 s"

definition getInitialsAndFirstLetter :: "(string \<Rightarrow> string) \<Rightarrow> contact \<Rightarrow> string \<times> string" where
  "getInitialsAndFirstLetter toUpperCase c =
    (let nameParts = split_space (name c);
         firstNameInitial = toUpperCase (charAt0 (hd nameParts));
         lastNameInitial =
           (if length nameParts > 1 then toUpperCase (charAt0 (nameParts ! 1)) else []);
         firstLetter = toUpperCase (charAt0 (name c));
         initials = firstNameInitial @ lastNameInitial
     in (initials, firstLetter))"

definition firstLetter_of :: "(string \<Rightarrow> string) \<Rightarrow> contact \<Rightarrow> string" where
  "firstLetter_of toUpperCase c = snd (getInitialsAndFirstLetter toUpperCase c)"

text \<open>\<open>processContact\<close>: the letters displayed after it, and the nodes it appends.\<close>

definition processContact ::
  "(string \<Rightarrow> string) \<Rightarrow> contact \<Rightarrow> string list \<Rightarrow> string list \<times> node list" where
  "processContact toUpperCase c displayedLetters =
    (case getInitialsAndFirstLetter toUpperCase c of
       (initials, firstLetter) \<Rightarrow>
         if firstLetter \<notin> set displayedLetters
         then (displayedLetters @ [firstLetter],
               [LetterElement firstLetter, DividerElement, ContactElement c initials])
         else (displayedLetters, [ContactElement c initials]))"

text \<open>The \<open>forEach\<close> of \<open>renderContactsList\<close>, from the letters displayed so far.\<close>

fun render_from :: "(string \<Rightarrow> string) \<Rightarrow> string list \<Rightarrow> contact list \<Rightarrow> node list" where
  "render_from toUpperCase displayedLetters [] = []"
| "render_from toUpperCase displayedLetters (c # cs) =
     (case processContact toUpperCase c displayedLetters of
        (displayed1, nodes) \<Rightarrow> nodes @ render_from toUpperCase displayed1 cs)"

definition renderContactsList :: "(string \<Rightarrow> string) \<Rightarrow> contact list \<Rightarrow> node list" where
  "renderContactsList toUpperCase cs = render_from toUpperCase [] cs"

text \<open>
  What a loader does besides returning: the \<open>PATCH\<close> of a colour to a contact,
  the contacts area filled with nodes, an error logged.
\<close>

datatype load_effect = Patch string jsval | Render "node list" | ConsoleErrorLoad

fun patched_ids :: "load_effect list \<Rightarrow> string list" where
  "patched_ids [] = []"
| "patched_ids (Patch key v # es) = key # patched_ids es"
| "patched_ids (e # es) = patched_ids es"

text \<open>
  \<open>ensureColorsInDatabase\<close>: the patches issued, and the exception if
  \<open>data[contact.id]\<close> is \<open>undefined\<close>. Where \<open>contact.id\<close> is no key of the data
  but a name found on the prototype chain, \<open>data[contact.id]\<close> is the inherited
  value, which has no \<open>color\<close>, and the patch is issued; \<open>inherited\<close> is the
  predicate of these names, as for \<open>toggleSubtask\<close>. \<open>saveColorToDatabase\<close>
  swallows a failure of its own \<open>fetch\<close>.
\<close>

fun ensureColorsInDatabase ::
  "(string \<Rightarrow> bool) \<Rightarrow> contact list \<Rightarrow> fetched_contacts \<Rightarrow> load_effect list \<times> js_error option" where
  "ensureColorsInDatabase inherited [] data = ([], None)"
| "ensureColorsInDatabase inherited (c # cs) data =
     (case map_of data (contact_id c) of
        None \<Rightarrow>
          if inherited (contact_id c)
          then (case ensureColorsInDatabase inherited cs data of
                  (patches, thrown) \<Rightarrow> (Patch (contact_id c) (color c) # patches, thrown))
          else ([], Some TypeError)
      | Some stored \<Rightarrow>
          (case ensureColorsInDatabase inherited cs data of
             (patches, thrown) \<Rightarrow>
               ((if \<not> truthy (color stored) then [Patch (contact_id c) (color c)] else []) @ patches,
                thrown)))"

text \<open>What an \<open>async\<close> function resolves to: a value, or \<open>undefined\<close> when it ends without \<open>return\<close>.\<close>

datatype 'a returned = Returns 'a | ReturnsUndefined

definition loadContacts ::
  "(string \<Rightarrow> bool) \<Rightarrow> (string \<Rightarrow> string) \<Rightarrow> (string \<Rightarrow> string \<Rightarrow> int) \<Rightarrow>
   random_source \<Rightarrow> nat \<Rightarrow> fetched_contacts fetched \<Rightarrow>
   contact list returned \<times> load_effect list" where
  "loadContacts inherited toUpperCase cmp rnd drawn response =
    (case response of
       Throws \<Rightarrow> (Returns [], [ConsoleErrorLoad])
     | Json None \<Rightarrow> (ReturnsUndefined, [])
     | Json (Some data) \<Rightarrow>
         (let sortedContacts = fst (processContacts cmp rnd drawn data)
          in case ensureColorsInDatabase inherited sortedContacts data of
               (patches, Some e) \<Rightarrow> (Returns [], patches @ [ConsoleErrorLoad])
             | (patches, None) \<Rightarrow>
                 (Returns sortedContacts,
                  patches @ [Render (renderContactsList toUpperCase sortedContacts)])))"

definition loadTaskContacts ::
  "(string \<Rightarrow> string \<Rightarrow> int) \<Rightarrow> random_source \<Rightarrow> nat \<Rightarrow>
   fetched_contacts fetched \<Rightarrow> contact list returned \<times> load_effect list" where
  "loadTaskContacts cmp rnd drawn response =
    (case response of
       Throws \<Rightarrow> (Returns [], [ConsoleErrorLoad])
     | Json None \<Rightarrow> (Returns [], [])
     | Json (Some data) \<Rightarrow> (Returns (fst (prepareSortedContacts cmp rnd drawn data)), []))"

text \<open>
  A task as \<open>loadTasks\<close> returns it: \<open>{id, ...task}\<close>. A stored task holds no
  \<open>id\<close> of its own (\<open>saveNewTask\<close> writes none), so \<open>id\<close> is the key.
\<close>

record task_with_id = task_body +
  loaded_id :: string

definition mapTasksWithIds :: "(string \<times> task_body) list \<Rightarrow> task_with_id list" where
  "mapTasksWithIds data =
     map (\<lambda>(key, t). \<lparr>title = title t, description = description t, dueDate = dueDate t,
            priority = priority t, badge = badge t, category = category t,
            subtasks = subtasks t, loaded_id = key\<rparr>) data"

definition loadTasks ::
  "(string \<times> task_body) list fetched \<Rightarrow> task_with_id list returned \<times> load_effect list" where
  "loadTasks response =
    (case response of
       Throws \<Rightarrow> (Returns [], [ConsoleErrorLoad])
     | Json None \<Rightarrow> (Returns [], [])
     | Json (Some data) \<Rightarrow> (Returns (mapTasksWithIds data), []))"

text \<open>
  A store with three contacts, two of them made by sign-up and so without a
  colour, one of them edited since and so with its key as \<open>id\<close>.
\<close>

definition example_contacts :: fetched_contacts where
  "example_contacts =
    [(''-K1'', \<lparr>name = ''Bob Stone'', email = JStr ''bob@example.com'', phone = JUndefined,
               password = JStr ''pw'', color = JUndefined, own_id = None\<rparr>),
     (''-K2'', \<lparr>name = ''Ada Lovelace'', email = JStr ''ada@example.com'', phone = JStr ''0123'',
               password = JUndefined, color = JStr ''#A3C5D8'', own_id = Some ''-K2''\<rparr>),
     (''-K3'', \<lparr>name = ''Al Khwarizmi'', email = JStr ''al@example.com'', phone = JUndefined,
               password = JStr ''pw'', color = JUndefined, own_id = None\<rparr>)]"

text \<open>The letters of the letter elements of a list of nodes, and the contacts of its contact elements, in order.\<close>

fun letters_shown :: "node list \<Rightarrow> string list" where
  "letters_shown [] = []"
| "letters_shown (LetterElement l # ns) = l # letters_shown ns"
| "letters_shown (n # ns) = letters_shown ns"

fun contacts_shown :: "node list \<Rightarrow> contact list" where
  "contacts_shown [] = []"
| "contacts_shown (ContactElement c initials # ns) = c # contacts_shown ns"
| "contacts_shown (n # ns) = contacts_shown ns"

section \<open>Properties of the summary counters\<close>

lemma updateCount_from:
  "updateCount s ts =
     \<lparr>ToDoCount = ToDoCount s + count_where category ''To-Do'' ts,
      doneCount = doneCount s + count_where category ''Done'' ts,
      urgencyCount = urgencyCount s + count_where priority ''urgent'' ts,
      taskCount = taskCount s + length ts,
      progressCount = progressCount s + count_where category ''In Progress'' ts,
      feedbackCount = feedbackCount s + count_where category ''Await Feedback'' ts\<rparr>"
proof (induction ts arbitrary: s)
  case Nil
  show ?case by (simp add: count_where_def)
next
  case (Cons t ts)
  show ?case
    unfolding updateCount.simps Cons.IH
    by (simp add: countTask_def count_where_def Let_def)
qed

text \<open>
  Claim C7. Started on counters that are all zero, \<open>updateCount\<close> leaves in
  \<open>taskCount\<close> the number of tasks, in the four column counters the number of
  tasks whose category is exactly "To-Do", "In Progress", "Await Feedback" and
  "Done", and in \<open>urgencyCount\<close> the number of tasks whose priority is exactly
  "urgent". A task of any other category adds to \<open>taskCount\<close> only.
\<close>

theorem updateCount_counts:
  "updateCount zero_counters ts =
     \<lparr>ToDoCount = count_where category ''To-Do'' ts,
      doneCount = count_where category ''Done'' ts,
      urgencyCount = count_where priority ''urgent'' ts,
      taskCount = length ts,
      progressCount = count_where category ''In Progress'' ts,
      feedbackCount = count_where category ''Await Feedback'' ts\<rparr>"
  by (simp add: updateCount_from zero_counters_def)


section \<open>Properties of subtask progress and toggling\<close>

text \<open>
  Claim C3. For every subtasks map \<open>calculateSubtaskProgress\<close> returns as \<open>total\<close>
  the number of entries and as \<open>completed\<close> the number of entries whose
  \<open>completed\<close> field is strictly equal to \<open>true\<close>, so \<open>completed\<close> is at most
  \<open>total\<close>; for the empty map it returns \<open>{completed: 0, total: 0}\<close>.
\<close>

theorem calculateSubtaskProgress_counts:
  "calculateSubtaskProgress sts =
     \<lparr>completed_count = length (filter (\<lambda>(k, s). completed s = JBool True) sts),
      total = length sts\<rparr>
   \<and> completed_count (calculateSubtaskProgress sts) \<le> total (calculateSubtaskProgress sts)
   \<and> calculateSubtaskProgress [] = \<lparr>completed_count = 0, total = 0\<rparr>"
proof -
  let ?P = "\<lambda>s. completed s = JBool True"
  have run: "calculateSubtaskProgress sts =
      \<lparr>completed_count = length (filter ?P (map snd sts)), total = length sts\<rparr>"
    by (simp add: calculateSubtaskProgress_def Let_def)
  have flt: "length (filter ?P (map snd sts)) = length (filter (\<lambda>(k, s). ?P s) sts)"
    by (simp add: filter_map comp_def case_prod_unfold)
  have le: "length (filter (\<lambda>(k, s). ?P s) sts) \<le> length sts"
    by (rule length_filter_le)
  have empty: "calculateSubtaskProgress [] = \<lparr>completed_count = 0, total = 0\<rparr>"
    by (simp add: calculateSubtaskProgress_def)
  from run flt le empty show ?thesis by simp
qed

lemma map_fst_set_entry: "map fst (set_entry k v sts) = map fst sts"
  by (induction sts) auto

lemma map_of_set_entry_same:
  "map_of sts k = Some v0 \<Longrightarrow> map_of (set_entry k v sts) k = Some v"
  by (induction sts) (auto split: if_splits)

lemma map_of_set_entry_other:
  "k' \<noteq> k \<Longrightarrow> map_of (set_entry k v sts) k' = map_of sts k'"
  by (induction sts) auto

lemma set_entry_twice: "set_entry k v (set_entry k w sts) = set_entry k v sts"
  by (induction sts) auto

lemma set_entry_same: "map_of sts k = Some v \<Longrightarrow> set_entry k v sts = sts"
  by (induction sts) (auto split: if_splits)

lemma toggleSubtask_Inr:
  assumes "taskIndex < length tasks"
    and "subtasks (task (tasks ! taskIndex)) = Some sts"
    and "map_of sts subtaskId = Some st"
  shows "toggleSubtask inherited tasks taskIndex subtaskId =
    Inr (tasks[taskIndex := (tasks ! taskIndex)\<lparr>task := (task (tasks ! taskIndex))\<lparr>subtasks :=
      Some (set_entry subtaskId (st\<lparr>completed := js_not (completed st)\<rparr>) sts)\<rparr>\<rparr>])"
  using assms by (simp add: toggleSubtask_def Let_def)

lemma toggleTwice_Inr:
  assumes "taskIndex < length tasks"
    and "subtasks (task (tasks ! taskIndex)) = Some sts"
    and "map_of sts subtaskId = Some st"
  shows "toggleTwice inherited tasks taskIndex subtaskId =
    Inr (tasks[taskIndex := (tasks ! taskIndex)\<lparr>task := (task (tasks ! taskIndex))\<lparr>subtasks :=
      Some (set_entry subtaskId (st\<lparr>completed := JBool (truthy (completed st))\<rparr>) sts)\<rparr>\<rparr>])"
proof -
  let ?st1 = "st\<lparr>completed := js_not (completed st)\<rparr>"
  let ?sts1 = "set_entry subtaskId ?st1 sts"
  let ?t1 = "(tasks ! taskIndex)\<lparr>task := (task (tasks ! taskIndex))\<lparr>subtasks := Some ?sts1\<rparr>\<rparr>"
  let ?tasks1 = "tasks[taskIndex := ?t1]"
  have first: "toggleSubtask inherited tasks taskIndex subtaskId = Inr ?tasks1"
    by (rule toggleSubtask_Inr [OF assms])
  have len: "taskIndex < length ?tasks1" using assms(1) by simp
  have sub: "subtasks (task (?tasks1 ! taskIndex)) = Some ?sts1"
    using assms(1) by simp
  have look: "map_of ?sts1 subtaskId = Some ?st1"
    by (rule map_of_set_entry_same [OF assms(3)])
  have second: "toggleSubtask inherited ?tasks1 taskIndex subtaskId =
      Inr (?tasks1[taskIndex := (?tasks1 ! taskIndex)\<lparr>task := (task (?tasks1 ! taskIndex))\<lparr>subtasks :=
        Some (set_entry subtaskId (?st1\<lparr>completed := js_not (completed ?st1)\<rparr>) ?sts1)\<rparr>\<rparr>])"
    by (rule toggleSubtask_Inr [OF len sub look])
  show ?thesis
    unfolding toggleTwice_def first sum.case second
    using assms(1) by (simp add: set_entry_twice js_not_def)
qed

lemma toggleSubtask_inherited_name:
  assumes "taskIndex < length tasks"
    and "subtasks (task (tasks ! taskIndex)) = Some sts"
    and "map_of sts subtaskId = None"
  shows "toggleSubtask inherited tasks taskIndex subtaskId =
    (if inherited subtaskId then Inr tasks else Inl TypeError)"
  using assms by (simp add: toggleSubtask_def Let_def)

text \<open>
  Claim C4. For every task index of the \<open>tasks\<close> array and every subtask id
  present in that task's subtasks, \<open>toggleSubtask\<close> succeeds and negates exactly
  that subtask's \<open>completed\<close> flag: it stores \<open>!completed\<close> there and leaves the
  subtask's name, the keys, every other subtask, every other field of the task
  and every other task as they were. Applying it twice with the same arguments
  restores the original state: the toggle is an involution on the flags, which
  are booleans (every writer stores \<open>completed: false\<close>, and the toggle itself
  stores a boolean).
\<close>

theorem toggleSubtask_flips_one_flag:
  assumes "taskIndex < length tasks"
    and "subtasks (task (tasks ! taskIndex)) = Some sts"
    and "map_of sts subtaskId = Some st"
  shows "\<exists>sts'. toggleSubtask inherited tasks taskIndex subtaskId =
      Inr (tasks[taskIndex := (tasks ! taskIndex)\<lparr>task := (task (tasks ! taskIndex))\<lparr>subtasks := Some sts'\<rparr>\<rparr>])
    \<and> map fst sts' = map fst sts
    \<and> map_of sts' subtaskId = Some (st\<lparr>completed := JBool (\<not> truthy (completed st))\<rparr>)
    \<and> (\<forall>k. k \<noteq> subtaskId \<longrightarrow> map_of sts' k = map_of sts k)
    \<and> (is_boolean (completed st) \<longrightarrow> toggleTwice inherited tasks taskIndex subtaskId = Inr tasks)"
proof -
  let ?st1 = "st\<lparr>completed := js_not (completed st)\<rparr>"
  let ?sts1 = "set_entry subtaskId ?st1 sts"
  have run: "toggleSubtask inherited tasks taskIndex subtaskId =
      Inr (tasks[taskIndex := (tasks ! taskIndex)\<lparr>task := (task (tasks ! taskIndex))\<lparr>subtasks := Some ?sts1\<rparr>\<rparr>])"
    by (rule toggleSubtask_Inr [OF assms])
  have keys: "map fst ?sts1 = map fst sts"
    by (rule map_fst_set_entry)
  have same: "map_of ?sts1 subtaskId = Some (st\<lparr>completed := JBool (\<not> truthy (completed st))\<rparr>)"
    using map_of_set_entry_same [OF assms(3), of ?st1] by (simp add: js_not_def)
  have other: "\<forall>k. k \<noteq> subtaskId \<longrightarrow> map_of ?sts1 k = map_of sts k"
    by (simp add: map_of_set_entry_other)
  have twice: "is_boolean (completed st) \<longrightarrow> toggleTwice inherited tasks taskIndex subtaskId = Inr tasks"
  proof
    assume "is_boolean (completed st)"
    then obtain b where b: "completed st = JBool b"
      by (cases "completed st") simp_all
    have "st\<lparr>completed := JBool (truthy (completed st))\<rparr> = st"
      using b by simp
    then have "set_entry subtaskId (st\<lparr>completed := JBool (truthy (completed st))\<rparr>) sts = sts"
      using set_entry_same [OF assms(3)] by simp
    then have "toggleTwice inherited tasks taskIndex subtaskId =
        Inr (tasks[taskIndex := (tasks ! taskIndex)\<lparr>task := (task (tasks ! taskIndex))\<lparr>subtasks := Some sts\<rparr>\<rparr>])"
      using toggleTwice_Inr [OF assms] by simp
    moreover have "(tasks ! taskIndex)\<lparr>task := (task (tasks ! taskIndex))\<lparr>subtasks := Some sts\<rparr>\<rparr> = tasks ! taskIndex"
      using assms(2) by simp
    ultimately show "toggleTwice inherited tasks taskIndex subtaskId = Inr tasks"
      by (simp add: list_update_id)
  qed
  from run keys same other twice show ?thesis by blast
qed


theorem toggleSubtask_flips_one_flag_witness:
  "0 < length (example_board (JBool False))
   \<and> subtasks (task (example_board (JBool False) ! 0)) =
       Some [(''s1'', \<lparr>sub_name = JStr ''Agenda'', completed = JBool False\<rparr>)]
   \<and> map_of [(''s1'', \<lparr>sub_name = JStr ''Agenda'', completed = JBool False\<rparr>)] ''s1'' =
       Some \<lparr>sub_name = JStr ''Agenda'', completed = JBool False\<rparr>
   \<and> is_boolean (completed \<lparr>sub_name = JStr ''Agenda'', completed = JBool False\<rparr>)
   \<and> toggleSubtask on_object_prototype (example_board (JBool False)) 0 ''s1'' =
       Inr (example_board (JBool True))
   \<and> toggleTwice on_object_prototype (example_board (JBool False)) 0 ''s1'' =
       Inr (example_board (JBool False))"
  using toggleSubtask_flips_one_flag [where taskIndex = 0
      and tasks = "example_board (JBool False)"
      and sts = "[(''s1'', \<lparr>sub_name = JStr ''Agenda'', completed = JBool False\<rparr>)]"
      and subtaskId = "''s1''"
      and st = "\<lparr>sub_name = JStr ''Agenda'', completed = JBool False\<rparr>"
      and inherited = on_object_prototype]
  by (simp add: example_board_def toggleSubtask_def js_not_def)

section \<open>Properties of the login\<close>

lemma find_matching:
  "(\<exists>c. find P xs = Some c) \<longleftrightarrow> (\<exists>c \<in> set xs. P c)"
  by (induction xs) auto

lemma processLogin_None_quiet:
  "filter is_currentUser_write (processLogin None) = []
   \<and> filter is_summary_redirect (processLogin None) = []"
  by (simp add: processLogin_def)

text \<open>
  Claim C1. For every fetched contact collection and every entered pair,
  \<open>login\<close> calls \<open>processLogin\<close> with a contact exactly when some contact of the
  collection has an email strictly equal to the entered email and a password
  strictly equal to the entered password, and the contact passed is such a
  contact of the collection. When there is none, \<open>processLogin\<close> receives
  \<open>undefined\<close>, and what \<open>login\<close> then does holds no write of \<open>currentUser\<close> and
  no navigation to \<open>summary.html\<close>.
\<close>

theorem login_exact_pair:
  fixes cs :: contact_collection
  assumes root: "contacts contactAsJson = Some cs"
  shows "((\<exists>c. login_step (Json (Some contactAsJson)) e p = CallsProcessLogin (Some c))
        \<longleftrightarrow> (\<exists>c \<in> set (map snd cs). email c = JStr e \<and> password c = JStr p))
    \<and> (\<forall>c. login_step (Json (Some contactAsJson)) e p = CallsProcessLogin (Some c)
          \<longrightarrow> c \<in> set (map snd cs) \<and> email c = JStr e \<and> password c = JStr p
              \<and> login (Json (Some contactAsJson)) e p = processLogin (Some c))
    \<and> (\<not> (\<exists>c \<in> set (map snd cs). email c = JStr e \<and> password c = JStr p)
          \<longrightarrow> login_step (Json (Some contactAsJson)) e p = CallsProcessLogin None
              \<and> login (Json (Some contactAsJson)) e p = processLogin None
              \<and> filter is_currentUser_write (login (Json (Some contactAsJson)) e p) = []
              \<and> filter is_summary_redirect (login (Json (Some contactAsJson)) e p) = [])"
proof -
  let ?P = "\<lambda>c. email c = JStr e \<and> password c = JStr p"
  have step: "login_step (Json (Some contactAsJson)) e p = CallsProcessLogin (find ?P (map snd cs))"
    by (simp add: login_step_def root)
  have run: "login (Json (Some contactAsJson)) e p = processLogin (find ?P (map snd cs))"
    by (simp add: login_def step)
  have iff: "(\<exists>c. find ?P (map snd cs) = Some c) \<longleftrightarrow> (\<exists>c \<in> set (map snd cs). ?P c)"
    by (rule find_matching)
  have found: "\<forall>c. find ?P (map snd cs) = Some c \<longrightarrow> c \<in> set (map snd cs) \<and> ?P c"
    by (auto simp: find_Some_iff)
  have none: "\<not> (\<exists>c \<in> set (map snd cs). ?P c) \<longrightarrow> find ?P (map snd cs) = None"
    by (simp add: find_None_iff)
  show ?thesis
  proof (intro conjI allI impI)
    show "(\<exists>c. login_step (Json (Some contactAsJson)) e p = CallsProcessLogin (Some c))
        \<longleftrightarrow> (\<exists>c \<in> set (map snd cs). ?P c)"
      unfolding step using iff by simp
  next
    fix c assume c: "login_step (Json (Some contactAsJson)) e p = CallsProcessLogin (Some c)"
    then have f: "find ?P (map snd cs) = Some c" unfolding step by simp
    with found show "c \<in> set (map snd cs)" "email c = JStr e" "password c = JStr p"
      by blast+
    from f show "login (Json (Some contactAsJson)) e p = processLogin (Some c)"
      unfolding run by simp
  next
    assume "\<not> (\<exists>c \<in> set (map snd cs). ?P c)"
    with none have f: "find ?P (map snd cs) = None" by blast
    show "login_step (Json (Some contactAsJson)) e p = CallsProcessLogin None"
      unfolding step f ..
    show "login (Json (Some contactAsJson)) e p = processLogin None"
      unfolding run f ..
    show "filter is_currentUser_write (login (Json (Some contactAsJson)) e p) = []"
      unfolding run f using processLogin_None_quiet by blast
    show "filter is_summary_redirect (login (Json (Some contactAsJson)) e p) = []"
      unfolding run f using processLogin_None_quiet by blast
  qed
qed

theorem login_exact_pair_witness:
  "login_step (Json (Some \<lparr>contacts = Some example_accounts\<rparr>)) ''ada@example.com'' ''secret''
     = CallsProcessLogin (Some (snd (example_accounts ! 0)))
   \<and> login_step (Json (Some \<lparr>contacts = Some example_accounts\<rparr>)) ''ada@example.com'' ''Secret''
     = CallsProcessLogin None
   \<and> filter is_currentUser_write
        (login (Json (Some \<lparr>contacts = Some example_accounts\<rparr>)) ''bob@example.com'' []) = []"
  using login_exact_pair [of "\<lparr>contacts = Some example_accounts\<rparr>" example_accounts
      "''bob@example.com''" "[]"]
  by (simp add: example_accounts_def login_step_def login_def processLogin_def)


section \<open>Properties of the strings\<close>

lemma split_space_nonempty: "split_space s \<noteq> []"
  by (induction s) (auto split: list.splits)


lemma of_char_digit_char: "d < 10 \<Longrightarrow> of_char (digit_char d) = (48 + d :: nat)"
proof -
  assume "d < 10"
  then have "d \<in> {0, 1, 2, 3, 4, 5, 6, 7, 8, 9}" by auto
  then show ?thesis unfolding digit_char_def by auto
qed

lemma parse_digits_snoc: "parse_digits (s @ [c]) = 10 * parse_digits s + (of_char c - 48)"
  by (simp add: parse_digits_def)

lemma parse_number_toString: "parse_digits (number_toString n) = n"
proof (induction n rule: number_toString.induct)
  case (1 n)
  show ?case
  proof (cases "n < 10")
    case True
    then show ?thesis
      by (simp add: number_toString.simps [of n] parse_digits_def of_char_digit_char)
  next
    case False
    then have "parse_digits (number_toString n) =
        10 * parse_digits (number_toString (n div 10)) + (of_char (digit_char (n mod 10)) - 48)"
      by (simp add: number_toString.simps [of n] parse_digits_snoc)
    also have "\<dots> = 10 * (n div 10) + n mod 10"
      using False "1.IH" by (simp add: of_char_digit_char)
    finally show ?thesis by simp
  qed
qed

lemma number_toString_inj: "number_toString a = number_toString b \<Longrightarrow> a = b"
  by (metis parse_number_toString)

lemma contact_label_inj: "contact_label i = contact_label j \<Longrightarrow> i = j"
  using number_toString_inj [of "i + 1" "j + 1"] by (simp add: contact_label_def)

lemma set_property_fresh:
  "k \<notin> fst ` set obj \<Longrightarrow> set_property k v obj = obj @ [(k, v)]"
  by (induction obj) auto

lemma reduce_assigned_append:
  "(\<forall>k \<in> fst ` set acc. \<forall>j \<ge> index. k \<noteq> contact_label j) \<Longrightarrow>
   reduce_assigned acc index cs =
     acc @ map (\<lambda>(j, c). (contact_label j, snapshot_of c)) (zip [index..<index + length cs] cs)"
proof (induction cs arbitrary: acc index)
  case Nil
  show ?case by simp
next
  case (Cons c cs)
  have fresh: "contact_label index \<notin> fst ` set acc"
    using Cons.prems by blast
  let ?acc = "acc @ [(contact_label index, snapshot_of c)]"
  have pre: "\<forall>k \<in> fst ` set ?acc. \<forall>j \<ge> index + 1. k \<noteq> contact_label j"
  proof (intro ballI allI impI)
    fix k j assume k: "k \<in> fst ` set ?acc" and j: "index + 1 \<le> j"
    from k have "k \<in> fst ` set acc \<or> k = contact_label index" by auto
    then show "k \<noteq> contact_label j"
    proof
      assume "k \<in> fst ` set acc"
      moreover have "index \<le> j" using j by simp
      ultimately show ?thesis using Cons.prems by blast
    next
      assume "k = contact_label index"
      moreover have "index \<noteq> j" using j by simp
      ultimately show ?thesis using contact_label_inj by blast
    qed
  qed
  have "reduce_assigned acc index (c # cs) = reduce_assigned ?acc (index + 1) cs"
    by (simp add: set_property_fresh [OF fresh])
  also have "\<dots> = ?acc @ map (\<lambda>(j, c). (contact_label j, snapshot_of c))
      (zip [index + 1..<index + 1 + length cs] cs)"
    by (rule Cons.IH [OF pre])
  also have "\<dots> = acc @ map (\<lambda>(j, c). (contact_label j, snapshot_of c))
      (zip [index..<index + length (c # cs)] (c # cs))"
    by (subst (2) upt_rec) simp
  finally show ?case .
qed

lemma initial_of_Cons: "p \<noteq> [] \<Longrightarrow> initial_of up p = Inr (up [hd p])"
  by (cases p) simp_all

lemma initials_ok:
  "[] \<notin> set ps \<Longrightarrow> map_throwing (initial_of up) ps = Inr (map (\<lambda>p. up [hd p]) ps)"
proof (induction ps)
  case Nil
  show ?case by simp
next
  case (Cons p ps)
  from Cons.prems have p: "p \<noteq> []" and ps: "[] \<notin> set ps" by auto
  show ?case by (simp add: initial_of_Cons [OF p] Cons.IH [OF ps])
qed

lemma initials_fail:
  "[] \<in> set ps \<Longrightarrow> map_throwing (initial_of up) ps = Inl TypeError"
proof (induction ps)
  case Nil
  then show ?case by simp
next
  case (Cons p ps)
  show ?case
  proof (cases "p = []")
    case True
    then show ?thesis by simp
  next
    case False
    with Cons.prems have "[] \<in> set ps" by auto
    with Cons.IH have "map_throwing (initial_of up) ps = Inl TypeError" by simp
    with False show ?thesis by (simp add: initial_of_Cons)
  qed
qed

lemma split_space_double_tl: "[] \<in> set (tl (split_space (a @ ''  '' @ b)))"
proof (induction a)
  case Nil
  show ?case by simp
next
  case (Cons c a)
  obtain part parts where sp: "split_space (a @ ''  '' @ b) = part # parts"
    using split_space_nonempty [of "a @ ''  '' @ b"] by (auto simp: neq_Nil_conv)
  from Cons.IH have tl: "[] \<in> set parts" unfolding sp by simp
  show ?case
  proof (cases "c = CHR '' ''")
    case True
    have "split_space ((c # a) @ ''  '' @ b) = [] # part # parts"
      using True sp by simp
    with tl show ?thesis by simp
  next
    case False
    have "split_space ((c # a) @ ''  '' @ b) = (c # part) # parts"
      using False sp by simp
    with tl show ?thesis by simp
  qed
qed

lemma split_space_double: "[] \<in> set (split_space (a @ ''  '' @ b))"
  using split_space_double_tl by (rule list.set_sel(2) [OF split_space_nonempty])

section \<open>Properties of \<open>getInitials\<close>\<close>

lemma getInitials_run:
  "n \<noteq> [] \<Longrightarrow> n \<noteq> ''guest'' \<Longrightarrow>
   getInitials up (Some n) =
     (case map_throwing (initial_of up) (split_space n) of
        Inl e \<Rightarrow> Inl e | Inr initials \<Rightarrow> Inr (take 2 (concat initials)))"
  by (simp add: getInitials_def)

lemma double_space_not_guest: "a @ ''  '' @ b \<noteq> ''guest''"
proof -
  have inside: "CHR '' '' \<in> set (a @ ''  '' @ b)" by simp
  have outside: "CHR '' '' \<notin> set ''guest''" by simp
  from inside outside show ?thesis by metis
qed

text \<open>
  Claim C10. \<open>getInitials\<close> returns "G" when the name is missing, empty or
  exactly "guest". For every other name whose space-separated segments are all
  non-empty it returns, without fault, the uppercased first characters of the
  segments, joined and cut to at most two characters. The condition is needed:
  on a name with an empty segment the call throws a \<open>TypeError\<close>, and a name
  with two consecutive spaces has an empty segment.
\<close>

theorem getInitials_segments:
  "getInitials up None = Inr ''G''
   \<and> getInitials up (Some []) = Inr ''G''
   \<and> getInitials up (Some ''guest'') = Inr ''G''
   \<and> (n \<noteq> [] \<and> n \<noteq> ''guest'' \<and> [] \<notin> set (split_space n) \<longrightarrow>
        getInitials up (Some n) =
          Inr (take 2 (concat (map (\<lambda>part. up [hd part]) (split_space n)))))
   \<and> (n \<noteq> [] \<and> n \<noteq> ''guest'' \<and> [] \<in> set (split_space n) \<longrightarrow>
        getInitials up (Some n) = Inl TypeError)
   \<and> [] \<in> set (split_space (a @ ''  '' @ b))
   \<and> getInitials up (Some (a @ ''  '' @ b)) = Inl TypeError"
proof (intro conjI impI)
  show "getInitials up None = Inr ''G''" by (simp add: getInitials_def)
  show "getInitials up (Some []) = Inr ''G''" by (simp add: getInitials_def)
  show "getInitials up (Some ''guest'') = Inr ''G''" by (simp add: getInitials_def)
next
  assume h: "n \<noteq> [] \<and> n \<noteq> ''guest'' \<and> [] \<notin> set (split_space n)"
  then have "map_throwing (initial_of up) (split_space n) =
      Inr (map (\<lambda>part. up [hd part]) (split_space n))"
    by (simp add: initials_ok)
  with h show "getInitials up (Some n) =
      Inr (take 2 (concat (map (\<lambda>part. up [hd part]) (split_space n))))"
    by (simp add: getInitials_run)
next
  assume h: "n \<noteq> [] \<and> n \<noteq> ''guest'' \<and> [] \<in> set (split_space n)"
  then have "map_throwing (initial_of up) (split_space n) = Inl TypeError"
    by (simp add: initials_fail)
  with h show "getInitials up (Some n) = Inl TypeError"
    by (simp add: getInitials_run)
next
  show "[] \<in> set (split_space (a @ ''  '' @ b))" by (rule split_space_double)
next
  have "a @ ''  '' @ b \<noteq> []" by simp
  moreover have "map_throwing (initial_of up) (split_space (a @ ''  '' @ b)) = Inl TypeError"
    by (rule initials_fail [OF split_space_double])
  ultimately show "getInitials up (Some (a @ ''  '' @ b)) = Inl TypeError"
    using double_space_not_guest [of a b] by (simp add: getInitials_run del: append.simps)
qed

theorem getInitials_segments_witness:
  "''ada lovelace king'' \<noteq> [] \<and> ''ada lovelace king'' \<noteq> ''guest''
   \<and> [] \<notin> set (split_space ''ada lovelace king'')
   \<and> getInitials ascii_toUpperCase (Some ''ada lovelace king'') = Inr ''AL''
   \<and> getInitials ascii_toUpperCase (Some ''ada  lovelace'') = Inl TypeError"
proof -
  have hyp: "''ada lovelace king'' \<noteq> [] \<and> ''ada lovelace king'' \<noteq> ''guest''
      \<and> [] \<notin> set (split_space ''ada lovelace king'')"
    by simp
  have val: "take 2 (concat (map (\<lambda>part. ascii_toUpperCase [hd part])
      (split_space ''ada lovelace king''))) = ''AL''"
    by (simp add: ascii_toUpperCase_def)
  from getInitials_segments [of ascii_toUpperCase "''ada lovelace king''" "''ada''" "''lovelace''"]
  show ?thesis
    using hyp unfolding val by simp
qed

section \<open>Properties of \<open>getAssignedContacts\<close>\<close>

lemma map2_index:
  "map (\<lambda>(j, c). f j c) (zip [0..<length cs] cs) = map (\<lambda>i. f i (cs ! i)) [0..<length cs]"
  by (rule nth_equalityI) simp_all

lemma reduce_assigned_all:
  "reduce_assigned [] 0 cs = map (\<lambda>i. (contact_label i, snapshot_of (cs ! i))) [0..<length cs]"
proof -
  have "reduce_assigned [] 0 cs =
      [] @ map (\<lambda>(j, c). (contact_label j, snapshot_of c)) (zip [0..<0 + length cs] cs)"
    by (rule reduce_assigned_append) simp
  then show ?thesis
    using map2_index [of "\<lambda>j c. (contact_label j, snapshot_of c)" cs] by simp
qed

lemma labels_from_one:
  "map contact_label [0..<n] = map (\<lambda>i. ''contact'' @ number_toString i) [1..<Suc n]"
proof -
  have "map contact_label [0..<n] = map (\<lambda>i. ''contact'' @ number_toString i) (map Suc [0..<n])"
    by (simp add: contact_label_def comp_def)
  also have "map Suc [0..<n] = [1..<Suc n]"
    by (simp add: map_Suc_upt)
  finally show ?thesis .
qed

lemma distinct_labels: "distinct (map contact_label [0..<n])"
  by (simp add: distinct_map inj_on_def contact_label_inj)

text \<open>
  Claim C9. For a non-empty list of \<open>N\<close> selected contacts
  \<open>getAssignedContacts\<close> returns an object whose keys are exactly \<open>contact1\<close> to
  \<open>contactN\<close>, in this order and without repetition, and whose value at
  \<open>contactI\<close> is the \<open>{name, color}\<close> copy of the \<open>I\<close>-th selected contact, a
  record with no other field. For the empty list it returns the empty string.
\<close>

theorem getAssignedContacts_labels:
  "getAssignedContacts [] = EmptyString
   \<and> (selectedContacts \<noteq> [] \<longrightarrow>
        (\<exists>obj. getAssignedContacts selectedContacts = AssignedTo obj
          \<and> map fst obj =
              map (\<lambda>i. ''contact'' @ number_toString i) [1..<Suc (length selectedContacts)]
          \<and> distinct (map fst obj)
          \<and> (\<forall>i < length selectedContacts.
                map_of obj (''contact'' @ number_toString (Suc i)) =
                  Some \<lparr>snap_name = name (selectedContacts ! i),
                        snap_color = color (selectedContacts ! i)\<rparr>)))"
proof (intro conjI impI)
  show "getAssignedContacts [] = EmptyString" by (simp add: getAssignedContacts_def)
next
  assume ne: "selectedContacts \<noteq> []"
  let ?n = "length selectedContacts"
  let ?obj = "map (\<lambda>i. (contact_label i, snapshot_of (selectedContacts ! i))) [0..<?n]"
  have run: "getAssignedContacts selectedContacts = AssignedTo ?obj"
    using ne by (simp add: getAssignedContacts_def reduce_assigned_all)
  have fst_obj: "map fst ?obj = map contact_label [0..<?n]"
    by (simp add: comp_def)
  have keys: "map fst ?obj = map (\<lambda>i. ''contact'' @ number_toString i) [1..<Suc ?n]"
    unfolding fst_obj by (rule labels_from_one)
  have dist: "distinct (map fst ?obj)"
    unfolding fst_obj by (rule distinct_labels)
  have look: "\<forall>i < ?n. map_of ?obj (''contact'' @ number_toString (Suc i)) =
      Some \<lparr>snap_name = name (selectedContacts ! i), snap_color = color (selectedContacts ! i)\<rparr>"
  proof (intro allI impI)
    fix i assume i: "i < ?n"
    then have "(contact_label i, snapshot_of (selectedContacts ! i)) \<in> set ?obj" by auto
    with dist have "map_of ?obj (contact_label i) = Some (snapshot_of (selectedContacts ! i))"
      by (rule map_of_is_SomeI)
    then show "map_of ?obj (''contact'' @ number_toString (Suc i)) =
        Some \<lparr>snap_name = name (selectedContacts ! i), snap_color = color (selectedContacts ! i)\<rparr>"
      by (simp add: contact_label_def snapshot_of_def)
  qed
  from run keys dist look
  show "\<exists>obj. getAssignedContacts selectedContacts = AssignedTo obj
          \<and> map fst obj =
              map (\<lambda>i. ''contact'' @ number_toString i) [1..<Suc (length selectedContacts)]
          \<and> distinct (map fst obj)
          \<and> (\<forall>i < length selectedContacts.
                map_of obj (''contact'' @ number_toString (Suc i)) =
                  Some \<lparr>snap_name = name (selectedContacts ! i),
                        snap_color = color (selectedContacts ! i)\<rparr>)"
    by blast
qed

theorem getAssignedContacts_labels_witness:
  "example_selected \<noteq> []
   \<and> (\<exists>obj. getAssignedContacts example_selected = AssignedTo obj
          \<and> map fst obj =
              map (\<lambda>i. ''contact'' @ number_toString i) [1..<Suc (length example_selected)]
          \<and> distinct (map fst obj)
          \<and> (\<forall>i < length example_selected.
                map_of obj (''contact'' @ number_toString (Suc i)) =
                  Some \<lparr>snap_name = name (example_selected ! i),
                        snap_color = color (example_selected ! i)\<rparr>))
   \<and> getAssignedContacts example_selected =
       AssignedTo [(''contact1'', \<lparr>snap_name = ''Ada Lovelace'', snap_color = JStr ''#FF7A00''\<rparr>),
                   (''contact2'', \<lparr>snap_name = ''Bob Stone'', snap_color = JStr ''#A3C5D8''\<rparr>)]"
proof -
  have hyp: "example_selected \<noteq> []"
    by (simp add: example_selected_def)
  note concl = getAssignedContacts_labels [of example_selected, THEN conjunct2, THEN mp, OF hyp]
  have one: "number_toString (Suc 0) = ''1''"
    by (simp add: number_toString.simps [of "Suc 0"] digit_char_def)
  have two: "number_toString (Suc (Suc 0)) = ''2''"
    by (simp add: number_toString.simps [of "Suc (Suc 0)"] digit_char_def)
  have run: "getAssignedContacts example_selected =
       AssignedTo [(''contact1'', \<lparr>snap_name = ''Ada Lovelace'', snap_color = JStr ''#FF7A00''\<rparr>),
                   (''contact2'', \<lparr>snap_name = ''Bob Stone'', snap_color = JStr ''#A3C5D8''\<rparr>)]"
    by (simp add: example_selected_def getAssignedContacts_def contact_label_def snapshot_of_def
        one two)
  show ?thesis
    by (intro conjI) (rule hyp, rule concl, rule run)
qed


section \<open>Properties of the regular expressions\<close>

text \<open>The derivative matcher decides membership in the language of the pattern.\<close>

lemma nullable_lang: "nullable r \<longleftrightarrow> [] \<in> lang r"
  by (induction r) (auto simp: conc_def intro: star.star_nil)

lemma conc_Cons:
  "c # w \<in> conc A B \<longleftrightarrow>
     (\<exists>u v. w = u @ v \<and> c # u \<in> A \<and> v \<in> B) \<or> ([] \<in> A \<and> c # w \<in> B)"
  unfolding conc_def by (auto simp: Cons_eq_append_conv)

lemma star_Cons_split:
  "x \<in> star A \<Longrightarrow> x = c # w \<Longrightarrow> \<exists>u v. w = u @ v \<and> c # u \<in> A \<and> v \<in> star A"
proof (induction arbitrary: w rule: star.induct)
  case star_nil
  then show ?case by simp
next
  case (star_step u v)
  show ?case
  proof (cases u)
    case Nil
    with star_step.prems have "v = c # w" by simp
    then show ?thesis by (rule star_step.IH)
  next
    case (Cons a u')
    with star_step.prems have "a = c" and "w = u' @ v" by simp_all
    with Cons star_step.hyps show ?thesis by blast
  qed
qed

lemma star_Cons:
  "c # w \<in> star A \<longleftrightarrow> (\<exists>u v. w = u @ v \<and> c # u \<in> A \<and> v \<in> star A)"
proof
  assume "c # w \<in> star A"
  then show "\<exists>u v. w = u @ v \<and> c # u \<in> A \<and> v \<in> star A"
    by (rule star_Cons_split) simp
next
  assume "\<exists>u v. w = u @ v \<and> c # u \<in> A \<and> v \<in> star A"
  then obtain u v where "w = u @ v" "c # u \<in> A" "v \<in> star A" by blast
  then show "c # w \<in> star A"
    using star.star_step [of "c # u" A v] by simp
qed

lemma lang_deriv: "w \<in> lang (deriv c r) \<longleftrightarrow> c # w \<in> lang r"
proof (induction r arbitrary: w)
  case (Seq r s)
  show ?case
    by (simp add: conc_Cons nullable_lang Seq.IH) (auto simp: conc_def Seq.IH)
next
  case (Star r)
  show ?case
    by (simp add: star_Cons) (auto simp: conc_def Star.IH)
qed auto

lemma regex_test_lang: "regex_test r s \<longleftrightarrow> s \<in> lang r"
  by (induction s arbitrary: r) (simp_all add: nullable_lang lang_deriv)


lemma star_Class: "star {[c] | c. p c} = {w. \<forall>c \<in> set w. p c}"
proof (intro set_eqI iffI)
  fix w assume "w \<in> star {[c] | c. p c}"
  then show "w \<in> {w. \<forall>c \<in> set w. p c}"
    by (induction rule: star.induct) auto
next
  fix w assume "w \<in> {w. \<forall>c \<in> set w. p c}"
  then have "\<forall>c \<in> set w. p c" by simp
  then show "w \<in> star {[c] | c. p c}"
  proof (induction w)
    case Nil
    show ?case by (rule star.star_nil)
  next
    case (Cons a w)
    then have "[a] \<in> {[c] | c. p c}" and "w \<in> star {[c] | c. p c}" by auto
    then have "[a] @ w \<in> star {[c] | c. p c}" by (rule star.star_step)
    then show ?case by simp
  qed
qed

lemma lang_Plus_Class: "lang (Plus (Class p)) = {w. w \<noteq> [] \<and> (\<forall>c \<in> set w. p c)}"
proof (intro set_eqI iffI)
  fix w assume "w \<in> lang (Plus (Class p))"
  then show "w \<in> {w. w \<noteq> [] \<and> (\<forall>c \<in> set w. p c)}"
    by (auto simp: Plus_def conc_def star_Class)
next
  fix w assume "w \<in> {w. w \<noteq> [] \<and> (\<forall>c \<in> set w. p c)}"
  then obtain a w' where w: "w = [a] @ w'" and a: "p a" and w': "\<forall>c \<in> set w'. p c"
    by (cases w) auto
  then show "w \<in> lang (Plus (Class p))"
    unfolding Plus_def lang.simps star_Class conc_def by blast
qed

lemma lang_Lit: "lang (Lit c) = {[c]}"
  by (auto simp: Lit_def)

lemma lang_Exactly_Class:
  "lang (Exactly n (Class p)) = {w. length w = n \<and> (\<forall>c \<in> set w. p c)}"
proof (induction n)
  case 0
  show ?case by auto
next
  case (Suc n)
  show ?case
  proof (intro set_eqI iffI)
    fix w assume "w \<in> lang (Exactly (Suc n) (Class p))"
    then show "w \<in> {w. length w = Suc n \<and> (\<forall>c \<in> set w. p c)}"
      by (auto simp: conc_def Suc.IH)
  next
    fix w assume "w \<in> {w. length w = Suc n \<and> (\<forall>c \<in> set w. p c)}"
    then obtain a w' where "w = [a] @ w'" "p a" "length w' = n" "\<forall>c \<in> set w'. p c"
      by (cases w) auto
    then show "w \<in> lang (Exactly (Suc n) (Class p))"
      unfolding Exactly.simps lang.simps Suc.IH conc_def by blast
  qed
qed

lemma lang_AtMost_Class:
  "lang (AtMost n (Class p)) = {w. length w \<le> n \<and> (\<forall>c \<in> set w. p c)}"
proof (induction n)
  case 0
  show ?case by auto
next
  case (Suc n)
  show ?case
  proof (intro set_eqI iffI)
    fix w assume "w \<in> lang (AtMost (Suc n) (Class p))"
    then show "w \<in> {w. length w \<le> Suc n \<and> (\<forall>c \<in> set w. p c)}"
      by (auto simp: conc_def Suc.IH)
  next
    fix w assume w: "w \<in> {w. length w \<le> Suc n \<and> (\<forall>c \<in> set w. p c)}"
    show "w \<in> lang (AtMost (Suc n) (Class p))"
    proof (cases w)
      case Nil
      then show ?thesis by simp
    next
      case (Cons a w')
      with w have "w = [a] @ w'" "p a" "length w' \<le> n" "\<forall>c \<in> set w'. p c" by auto
      then have "w \<in> conc {[c] | c. p c} {w. length w \<le> n \<and> (\<forall>c \<in> set w. p c)}"
        unfolding conc_def by blast
      then show ?thesis by (simp add: Suc.IH)
    qed
  qed
qed

lemma lang_Between_Class:
  assumes "m \<le> n"
  shows "lang (Between m n (Class p)) = {w. m \<le> length w \<and> length w \<le> n \<and> (\<forall>c \<in> set w. p c)}"
proof (intro set_eqI iffI)
  fix w assume "w \<in> lang (Between m n (Class p))"
  then show "w \<in> {w. m \<le> length w \<and> length w \<le> n \<and> (\<forall>c \<in> set w. p c)}"
    using assms by (auto simp: Between_def conc_def lang_Exactly_Class lang_AtMost_Class)
next
  fix w assume w: "w \<in> {w. m \<le> length w \<and> length w \<le> n \<and> (\<forall>c \<in> set w. p c)}"
  have split: "w = take m w @ drop m w" by simp
  have t: "take m w \<in> {w. length w = m \<and> (\<forall>c \<in> set w. p c)}"
    using w by (auto dest: in_set_takeD)
  have d: "drop m w \<in> {w. length w \<le> n - m \<and> (\<forall>c \<in> set w. p c)}"
    using w by (auto dest: in_set_dropD)
  have "take m w @ drop m w \<in> conc {w. length w = m \<and> (\<forall>c \<in> set w. p c)}
      {w. length w \<le> n - m \<and> (\<forall>c \<in> set w. p c)}"
    unfolding conc_def using t d by blast
  then show "w \<in> lang (Between m n (Class p))"
    by (simp add: Between_def lang_Exactly_Class lang_AtMost_Class)
qed

lemma validatePhone_digits: "validatePhone p \<longleftrightarrow> p \<noteq> [] \<and> (\<forall>c \<in> set p. is_digit c)"
  by (simp add: validatePhone_def phonePattern_def regex_test_lang lang_Plus_Class)

lemma conc_iff: "w \<in> conc A B \<longleftrightarrow> (\<exists>u v. w = u @ v \<and> u \<in> A \<and> v \<in> B)"
  by (auto simp: conc_def)

lemma conc_single: "w \<in> conc {[c]} B \<longleftrightarrow> (\<exists>v. w = c # v \<and> v \<in> B)"
  by (auto simp: conc_def)

lemma conc_five:
  "w \<in> conc L (conc {[a]} (conc D (conc {[b]} T))) \<longleftrightarrow>
     (\<exists>l d t. w = l @ [a] @ d @ [b] @ t \<and> l \<in> L \<and> d \<in> D \<and> t \<in> T)"
proof
  assume "w \<in> conc L (conc {[a]} (conc D (conc {[b]} T)))"
  then obtain l r1 where 1: "w = l @ r1" "l \<in> L" "r1 \<in> conc {[a]} (conc D (conc {[b]} T))"
    unfolding conc_iff [of w] by blast
  from 1(3) obtain r2 where 2: "r1 = a # r2" "r2 \<in> conc D (conc {[b]} T)"
    unfolding conc_single by blast
  from 2(2) obtain d r3 where 3: "r2 = d @ r3" "d \<in> D" "r3 \<in> conc {[b]} T"
    unfolding conc_iff [of r2] by blast
  from 3(3) obtain t where 4: "r3 = b # t" "t \<in> T"
    unfolding conc_single by blast
  have "w = l @ [a] @ d @ [b] @ t"
    by (simp add: 1(1) 2(1) 3(1) 4(1))
  with 1(2) 3(2) 4(2) show "\<exists>l d t. w = l @ [a] @ d @ [b] @ t \<and> l \<in> L \<and> d \<in> D \<and> t \<in> T"
    by blast
next
  assume "\<exists>l d t. w = l @ [a] @ d @ [b] @ t \<and> l \<in> L \<and> d \<in> D \<and> t \<in> T"
  then obtain l d t where w: "w = l @ [a] @ d @ [b] @ t" and m: "l \<in> L" "d \<in> D" "t \<in> T"
    by blast
  have "b # t \<in> conc {[b]} T" using m(3) by (simp add: conc_single)
  then have "d @ b # t \<in> conc D (conc {[b]} T)" using m(2) unfolding conc_iff [of "d @ b # t"] by blast
  then have "a # d @ b # t \<in> conc {[a]} (conc D (conc {[b]} T))" by (simp add: conc_single)
  then have "l @ a # d @ b # t \<in> conc L (conc {[a]} (conc D (conc {[b]} T)))"
    using m(1) unfolding conc_iff [of "l @ a # d @ b # t"] by blast
  then show "w \<in> conc L (conc {[a]} (conc D (conc {[b]} T)))"
    by (simp add: w)
qed

lemma lang_emailPattern:
  "lang emailPattern =
     conc {w. w \<noteq> [] \<and> (\<forall>c \<in> set w. \<not> (is_space c \<or> c = CHR ''@''))}
    (conc {[CHR ''@'']}
    (conc {w. w \<noteq> [] \<and> (\<forall>c \<in> set w. is_letter c \<or> is_digit c \<or> c = CHR ''-'')}
    (conc {[CHR ''.'']}
          {w. 2 \<le> length w \<and> length w \<le> 6 \<and> (\<forall>c \<in> set w. is_letter c)})))"
proof -
  have tld: "lang (Between 2 6 (Class is_letter)) =
      {w. 2 \<le> length w \<and> length w \<le> 6 \<and> (\<forall>c \<in> set w. is_letter c)}"
    by (rule lang_Between_Class) simp
  show ?thesis
    unfolding emailPattern_def lang.simps(4) lang_Plus_Class lang_Lit tld ..
qed

lemma validateEmail_shape:
  "validateEmail e \<longleftrightarrow>
     (\<exists>local domain tld. e = local @ ''@'' @ domain @ ''.'' @ tld
        \<and> local \<in> {w. w \<noteq> [] \<and> (\<forall>c \<in> set w. \<not> (is_space c \<or> c = CHR ''@''))}
        \<and> domain \<in> {w. w \<noteq> [] \<and> (\<forall>c \<in> set w. is_letter c \<or> is_digit c \<or> c = CHR ''-'')}
        \<and> tld \<in> {w. 2 \<le> length w \<and> length w \<le> 6 \<and> (\<forall>c \<in> set w. is_letter c)})"
  unfolding validateEmail_def regex_test_lang lang_emailPattern
  by (rule conc_five)


section \<open>Properties of the contact form\<close>

lemma validateContactFields_True:
  "snd (validateContactFields n e p) \<longleftrightarrow>
     n \<noteq> [] \<and> e \<noteq> [] \<and> p \<noteq> [] \<and> 2 \<le> length (split_space n)
     \<and> regex_test emailPattern e \<and> (\<forall>c \<in> set p. is_digit c)"
  by (auto simp: validateContactFields_def validateEmail_def validatePhone_digits)

lemma validateContactFields_False:
  "\<not> snd (validateContactFields n e p) \<Longrightarrow>
   \<exists>m. validateContactFields n e p = ([ShowErrorMessage m], False)"
  by (auto simp: validateContactFields_def split: if_splits)

lemma validateContactFields_quiet:
  "snd (validateContactFields n e p) \<Longrightarrow> validateContactFields n e p = ([], True)"
  by (auto simp: validateContactFields_def split: if_splits)

text \<open>
  Claim C2. For the trimmed name, email and phone of the form,
  \<open>validateContactFields\<close> returns \<open>true\<close> exactly when all three are non-empty,
  the name splits on a single space into at least two parts, the email matches
  \<open>/^[^\s@]+@[a-zA-Z0-9-]+\.[a-zA-Z]{2,6}$/\<close> and the phone consists of the digits
  0 to 9 only. \<open>saveNewContact\<close> issues the \<open>POST\<close> exactly when it does, whatever
  the network then answers; otherwise it shows one error message and nothing
  else happens.
\<close>

theorem saveNewContact_posts_only_valid:
  assumes form: "getContactFormValues nameField emailField phoneField = (n, e, p)"
  shows "(snd (validateContactFields n e p) \<longleftrightarrow>
            n \<noteq> [] \<and> e \<noteq> [] \<and> p \<noteq> [] \<and> 2 \<le> length (split_space n)
            \<and> regex_test emailPattern e \<and> (\<forall>c \<in> set p. is_digit c))
    \<and> ((\<exists>x \<in> set (saveNewContact rnd drawn outcome nameField emailField phoneField). is_post x)
          \<longleftrightarrow> snd (validateContactFields n e p))
    \<and> (\<not> snd (validateContactFields n e p) \<longrightarrow>
          (\<exists>m. saveNewContact rnd drawn outcome nameField emailField phoneField
                 = [ShowErrorMessage m]))
    \<and> (snd (validateContactFields n e p) \<longrightarrow>
          filter is_error_message (saveNewContact rnd drawn outcome nameField emailField phoneField) = []
          \<and> filter is_post (saveNewContact rnd drawn outcome nameField emailField phoneField)
              = [PostContact (createNewContact rnd drawn n e p)])"
proof (intro conjI impI)
  show "snd (validateContactFields n e p) \<longleftrightarrow>
      n \<noteq> [] \<and> e \<noteq> [] \<and> p \<noteq> [] \<and> 2 \<le> length (split_space n)
      \<and> regex_test emailPattern e \<and> (\<forall>c \<in> set p. is_digit c)"
    by (rule validateContactFields_True)
next
  show "(\<exists>x \<in> set (saveNewContact rnd drawn outcome nameField emailField phoneField). is_post x)
      \<longleftrightarrow> snd (validateContactFields n e p)"
  proof (cases "snd (validateContactFields n e p)")
    case True
    then show ?thesis
      using validateContactFields_quiet [OF True]
      by (simp add: saveNewContact_def form Let_def)
  next
    case False
    from validateContactFields_False [OF False] obtain m
      where "validateContactFields n e p = ([ShowErrorMessage m], False)" by blast
    with False show ?thesis
      by (simp add: saveNewContact_def form)
  qed
next
  assume invalid: "\<not> snd (validateContactFields n e p)"
  from validateContactFields_False [OF invalid] obtain m
    where "validateContactFields n e p = ([ShowErrorMessage m], False)" by blast
  then have "saveNewContact rnd drawn outcome nameField emailField phoneField = [ShowErrorMessage m]"
    by (simp add: saveNewContact_def form)
  then show "\<exists>m. saveNewContact rnd drawn outcome nameField emailField phoneField
      = [ShowErrorMessage m]" by blast
next
  assume valid: "snd (validateContactFields n e p)"
  show "filter is_error_message (saveNewContact rnd drawn outcome nameField emailField phoneField) = []"
    using validateContactFields_quiet [OF valid]
    by (cases outcome) (simp_all add: saveNewContact_def form Let_def)
  show "filter is_post (saveNewContact rnd drawn outcome nameField emailField phoneField)
      = [PostContact (createNewContact rnd drawn n e p)]"
    using validateContactFields_quiet [OF valid]
    by (cases outcome) (simp_all add: saveNewContact_def form Let_def)
qed

lemma color_loop_map:
  "color_loop rnd drawn left acc = acc @ map (\<lambda>i. letters ! unat (rnd (drawn + i))) [0..<left]"
proof (induction left arbitrary: drawn acc)
  case 0
  show ?case by simp
next
  case (Suc left)
  have "map (\<lambda>i. letters ! unat (rnd (drawn + i))) [0..<Suc left] =
      letters ! unat (rnd drawn) # map (\<lambda>i. letters ! unat (rnd (drawn + 1 + i))) [0..<left]"
    by (simp add: upt_conv_Cons map_Suc_upt [symmetric] del: upt_Suc)
  then show ?case
    by (simp add: Suc.IH del: upt_Suc)
qed

lemma generateRandomColor_constant:
  "fst (generateRandomColor (\<lambda>i. w) drawn) = CHR ''#'' # replicate 6 (letters ! unat w)"
  by (simp add: generateRandomColor_def color_loop_map map_replicate_const)

lemma example_email_valid: "regex_test emailPattern ''ada@example.com''"
proof -
  have parts: "''ada@example.com'' = ''ada'' @ ''@'' @ ''example'' @ ''.'' @ ''com''"
    by simp
  have l: "''ada'' \<in> {w. w \<noteq> [] \<and> (\<forall>c \<in> set w. \<not> (is_space c \<or> c = CHR ''@''))}"
    by (simp add: is_space_def char_code_def)
  have d: "''example'' \<in> {w. w \<noteq> [] \<and> (\<forall>c \<in> set w. is_letter c \<or> is_digit c \<or> c = CHR ''-'')}"
    by (simp add: is_letter_def in_range_def char_code_def)
  have t: "''com'' \<in> {w. 2 \<le> length w \<and> length w \<le> 6 \<and> (\<forall>c \<in> set w. is_letter c)}"
    by (simp add: is_letter_def in_range_def char_code_def)
  have "validateEmail ''ada@example.com''"
    apply (rule validateEmail_shape [THEN iffD2])
    apply (rule exI [of _ "''ada''"], rule exI [of _ "''example''"], rule exI [of _ "''com''"])
    apply (intro conjI)
       apply (rule parts)
      apply (rule l)
     apply (rule d)
    apply (rule t)
    done
  then show ?thesis by (simp only: validateEmail_def)
qed

lemma replicate_6: "replicate 6 x = [x, x, x, x, x, x]"
  by (simp add: numeral_eq_Suc)

theorem saveNewContact_posts_only_valid_witness:
  "getContactFormValues '' Ada Lovelace'' ''ada@example.com '' ''0123'' =
     (''Ada Lovelace'', ''ada@example.com'', ''0123'')
   \<and> snd (validateContactFields ''Ada Lovelace'' ''ada@example.com'' ''0123'')
   \<and> filter is_post (saveNewContact (\<lambda>i. 10) 0 (PostResponse True)
          '' Ada Lovelace'' ''ada@example.com '' ''0123'')
       = [PostContact \<lparr>name = ''Ada Lovelace'', email = JStr ''ada@example.com'',
            phone = JStr ''0123'', password = JUndefined, color = JStr ''#AAAAAA''\<rparr>]
   \<and> getContactFormValues ''Ada'' ''ada@example.com'' ''0123'' = (''Ada'', ''ada@example.com'', ''0123'')
   \<and> \<not> snd (validateContactFields ''Ada'' ''ada@example.com'' ''0123'')
   \<and> (\<exists>m. saveNewContact (\<lambda>i. 10) 0 (PostResponse True) ''Ada'' ''ada@example.com'' ''0123''
          = [ShowErrorMessage m])"
proof -
  have form1: "getContactFormValues '' Ada Lovelace'' ''ada@example.com '' ''0123'' =
      (''Ada Lovelace'', ''ada@example.com'', ''0123'')"
    by (simp add: getContactFormValues_def trim_def is_space_def char_code_def)
  note thm1 = saveNewContact_posts_only_valid [OF form1, of "\<lambda>i. 10" 0 "PostResponse True"]
  have digits: "\<forall>c \<in> set ''0123''. is_digit c"
    by (simp add: is_digit_def in_range_def char_code_def)
  have two: "2 \<le> length (split_space ''Ada Lovelace'')"
    by simp
  have valid: "snd (validateContactFields ''Ada Lovelace'' ''ada@example.com'' ''0123'')"
    apply (rule thm1 [THEN conjunct1, THEN iffD2])
    apply (intro conjI)
         apply simp
        apply simp
       apply simp
      apply (rule two)
     apply (rule example_email_valid)
    apply (rule digits)
    done
  have color: "createNewContact (\<lambda>i. 10) 0 ''Ada Lovelace'' ''ada@example.com'' ''0123'' =
      \<lparr>name = ''Ada Lovelace'', email = JStr ''ada@example.com'',
        phone = JStr ''0123'', password = JUndefined, color = JStr ''#AAAAAA''\<rparr>"
    by (simp add: createNewContact_def generateRandomColor_constant replicate_6 letters_def)
  have posts: "filter is_post (saveNewContact (\<lambda>i. 10) 0 (PostResponse True)
          '' Ada Lovelace'' ''ada@example.com '' ''0123'')
       = [PostContact \<lparr>name = ''Ada Lovelace'', email = JStr ''ada@example.com'',
            phone = JStr ''0123'', password = JUndefined, color = JStr ''#AAAAAA''\<rparr>]"
    using thm1 [THEN conjunct2, THEN conjunct2, THEN conjunct2, THEN mp, OF valid, THEN conjunct2]
    unfolding color .
  have form2: "getContactFormValues ''Ada'' ''ada@example.com'' ''0123'' = (''Ada'', ''ada@example.com'', ''0123'')"
    by (simp add: getContactFormValues_def trim_def is_space_def char_code_def)
  note thm2 = saveNewContact_posts_only_valid [OF form2, of "\<lambda>i. 10" 0 "PostResponse True"]
  have one: "\<not> 2 \<le> length (split_space ''Ada'')"
    by simp
  have invalid: "\<not> snd (validateContactFields ''Ada'' ''ada@example.com'' ''0123'')"
    using thm2 [THEN conjunct1] one by blast
  note shown = thm2 [THEN conjunct2, THEN conjunct2, THEN conjunct1, THEN mp, OF invalid]
  show ?thesis
    by (intro conjI) (rule form1, rule valid, rule posts, rule form2, rule invalid, rule shown)
qed


section \<open>Properties of the loaders\<close>

text \<open>
  Claim C8. When the fetch throws, each of the three loaders logs the error and
  returns the empty array. When the store returns no data, \<open>loadTasks\<close> and
  \<open>loadTaskContacts\<close> return the empty array through their \<open>else\<close> branch;
  \<open>loadContacts\<close> has no such branch, leaves the \<open>try\<close> block without a \<open>return\<close>
  and resolves to \<open>undefined\<close>.
\<close>

theorem loaders_on_failure:
  "fst (loadTasks Throws) = Returns []
   \<and> fst (loadTasks (Json None)) = Returns []
   \<and> fst (loadTaskContacts cmp rnd drawn Throws) = Returns []
   \<and> fst (loadTaskContacts cmp rnd drawn (Json None)) = Returns []
   \<and> fst (loadContacts inherited up cmp rnd drawn Throws) = Returns []
   \<and> fst (loadContacts inherited up cmp rnd drawn (Json None)) = ReturnsUndefined
   \<and> fst (loadContacts inherited up cmp rnd drawn (Json None)) \<noteq> Returns []"
  by (simp add: loadTasks_def loadTaskContacts_def loadContacts_def)


subsection \<open>Random colours\<close>

lemma unat_4word_less: "unat (w :: 4 word) < 16"
  using unsigned_less [of w] by simp

lemma hex_digit_in_letters: "letters ! unat (w :: 4 word) \<in> set letters"
proof -
  have "unat w < length letters"
    using unat_4word_less [of w] by (simp add: letters_def)
  then show ?thesis by (rule nth_mem)
qed

lemma generateRandomColor_shape:
  "fst (generateRandomColor rnd drawn) =
     CHR ''#'' # map (\<lambda>i. letters ! unat (rnd (drawn + i))) [0..<6]"
  by (simp add: generateRandomColor_def color_loop_map)

lemma generateRandomColor_hex:
  "\<exists>hs. fst (generateRandomColor rnd drawn) = CHR ''#'' # hs \<and> length hs = 6 \<and> set hs \<subseteq> set letters"
proof -
  let ?hs = "map (\<lambda>i. letters ! unat (rnd (drawn + i))) [0..<6]"
  have "fst (generateRandomColor rnd drawn) = CHR ''#'' # ?hs"
    by (rule generateRandomColor_shape)
  moreover have "length ?hs = 6" by simp
  moreover have "set ?hs \<subseteq> set letters"
    using hex_digit_in_letters by auto
  ultimately show ?thesis by blast
qed

lemma generateRandomColor_truthy: "truthy (JStr (fst (generateRandomColor rnd drawn)))"
  by (simp add: generateRandomColor_shape)

subsection \<open>The processed contacts\<close>

lemma with_colors_Cons:
  "fst (with_colors rnd drawn ((key, c) # rest)) =
     \<lparr>name = name c, email = email c, phone = phone c, password = password c,
       color = (if truthy (color c) then color c else JStr (fst (generateRandomColor rnd drawn))),
       contact_id = (case own_id c of None \<Rightarrow> key | Some i \<Rightarrow> i)\<rparr>
     # fst (with_colors rnd
            (if truthy (color c) then drawn else snd (generateRandomColor rnd drawn)) rest)"
  by (simp add: Let_def split: prod.splits)

lemma ids_agree_Cons:
  "ids_agree ((key, c) # data) \<longleftrightarrow>
     (case own_id c of None \<Rightarrow> key | Some i \<Rightarrow> i) = key \<and> ids_agree data"
  by (auto simp: ids_agree_def split: option.splits)

lemma with_colors_ids:
  "ids_agree data \<Longrightarrow> map contact_id (fst (with_colors rnd drawn data)) = map fst data"
proof (induction data arbitrary: drawn)
  case Nil
  show ?case by simp
next
  case (Cons entry data)
  obtain key c where entry: "entry = (key, c)" by (cases entry)
  from Cons.prems have head: "(case own_id c of None \<Rightarrow> key | Some i \<Rightarrow> i) = key"
    and rest: "ids_agree data"
    unfolding entry ids_agree_Cons by simp_all
  show ?case unfolding entry with_colors_Cons by (simp add: head Cons.IH [OF rest])
qed

lemma with_colors_truthy: "\<forall>c \<in> set (fst (with_colors rnd drawn data)). truthy (color c)"
proof (induction data arbitrary: drawn)
  case Nil
  show ?case by simp
next
  case (Cons entry data)
  obtain key c where entry: "entry = (key, c)" by (cases entry)
  show ?case unfolding entry with_colors_Cons
    using Cons.IH by (simp add: generateRandomColor_shape)
qed

lemma with_colors_origin:
  "ids_agree data \<Longrightarrow> c \<in> set (fst (with_colors rnd drawn data)) \<Longrightarrow>
   \<exists>stored. (contact_id c, stored) \<in> set data \<and> name c = name stored
     \<and> (truthy (color stored) \<longrightarrow> color c = color stored)
     \<and> (\<not> truthy (color stored) \<longrightarrow> (\<exists>d. color c = JStr (fst (generateRandomColor rnd d))))"
proof (induction data arbitrary: drawn)
  case Nil
  then show ?case by simp
next
  case (Cons entry data)
  obtain key s where entry: "entry = (key, s)" by (cases entry)
  from Cons.prems(1) have head: "(case own_id s of None \<Rightarrow> key | Some i \<Rightarrow> i) = key"
    and agree: "ids_agree data"
    unfolding entry ids_agree_Cons by simp_all
  let ?d1 = "if truthy (color s) then drawn else snd (generateRandomColor rnd drawn)"
  let ?head = "\<lparr>name = name s, email = email s, phone = phone s, password = password s,
       color = (if truthy (color s) then color s else JStr (fst (generateRandomColor rnd drawn))),
       contact_id = key\<rparr>"
  from Cons.prems(2) have "c = ?head \<or> c \<in> set (fst (with_colors rnd ?d1 data))"
    unfolding entry with_colors_Cons head by simp
  then show ?case
  proof
    assume c: "c = ?head"
    have "(contact_id c, s) \<in> set (entry # data)" by (simp add: c entry)
    moreover have "name c = name s" by (simp add: c)
    moreover have "truthy (color s) \<longrightarrow> color c = color s" by (simp add: c)
    moreover have "\<not> truthy (color s) \<longrightarrow> (\<exists>d. color c = JStr (fst (generateRandomColor rnd d)))"
      by (auto simp: c)
    ultimately show ?thesis by blast
  next
    assume "c \<in> set (fst (with_colors rnd ?d1 data))"
    from Cons.IH [OF agree this] show ?thesis by auto
  qed
qed

subsection \<open>Sorting by name\<close>

lemma mset_insert_by_name: "mset (insert_by_name cmp x ys) = add_mset x (mset ys)"
  by (induction ys) auto

lemma mset_sort_by_name: "mset (sort_by_name cmp xs) = mset xs"
  unfolding sort_by_name_def by (induction xs) (auto simp: mset_insert_by_name)

lemma set_sort_by_name: "set (sort_by_name cmp xs) = set xs"
  using mset_sort_by_name [of cmp xs] by (metis set_mset_mset)

lemma set_insert_by_name: "set (insert_by_name cmp x ys) = insert x (set ys)"
  using mset_insert_by_name [of cmp x ys] by (metis set_mset_mset set_mset_add_mset_insert)

lemma sorted_insert_by_name:
  assumes "consistent_comparator cmp"
    and "sorted_wrt (\<lambda>a b. cmp (name a) (name b) \<le> 0) ys"
  shows "sorted_wrt (\<lambda>a b. cmp (name a) (name b) \<le> 0) (insert_by_name cmp x ys)"
  using assms(2)
proof (induction ys)
  case Nil
  show ?case by simp
next
  case (Cons y ys)
  from assms(1) have flip: "\<And>a b. 0 < cmp a b \<Longrightarrow> cmp b a \<le> 0"
    and trans: "\<And>a b c. cmp a b \<le> 0 \<Longrightarrow> cmp b c \<le> 0 \<Longrightarrow> cmp a c \<le> 0"
    unfolding consistent_comparator_def by blast+
  show ?case
  proof (cases "cmp (name x) (name y) \<le> 0")
    case True
    have "\<forall>z \<in> set ys. cmp (name x) (name z) \<le> 0"
      using Cons.prems True trans by auto
    with True Cons.prems show ?thesis by simp
  next
    case False
    then have yx: "cmp (name y) (name x) \<le> 0" using flip by simp
    have "\<forall>z \<in> set (insert_by_name cmp x ys). cmp (name y) (name z) \<le> 0"
      using Cons.prems yx by (auto simp: set_insert_by_name)
    moreover have "sorted_wrt (\<lambda>a b. cmp (name a) (name b) \<le> 0) (insert_by_name cmp x ys)"
      using Cons.IH Cons.prems by simp
    ultimately show ?thesis using False by simp
  qed
qed

lemma sorted_sort_by_name:
  "consistent_comparator cmp \<Longrightarrow>
   sorted_wrt (\<lambda>a b. cmp (name a) (name b) \<le> 0) (sort_by_name cmp xs)"
  unfolding sort_by_name_def
  by (induction xs) (simp_all add: sorted_insert_by_name)


subsection \<open>The rendered list\<close>

lemma render_from_Cons:
  "render_from up dl (c # cs) =
     (if firstLetter_of up c \<notin> set dl
      then LetterElement (firstLetter_of up c) # DividerElement
           # ContactElement c (fst (getInitialsAndFirstLetter up c))
           # render_from up (dl @ [firstLetter_of up c]) cs
      else ContactElement c (fst (getInitialsAndFirstLetter up c)) # render_from up dl cs)"
  by (simp add: processContact_def firstLetter_of_def split: prod.splits)

lemma contacts_shown_render: "contacts_shown (render_from up dl cs) = cs"
  by (induction cs arbitrary: dl) (simp_all add: render_from_Cons del: render_from.simps(2))

lemma letters_shown_render:
  "distinct (letters_shown (render_from up dl cs))
   \<and> set (letters_shown (render_from up dl cs)) = firstLetter_of up ` set cs - set dl"
proof (induction cs arbitrary: dl)
  case Nil
  show ?case by simp
next
  case (Cons c cs)
  show ?case
  proof (cases "firstLetter_of up c \<in> set dl")
    case True
    then show ?thesis
      using Cons.IH [of dl] by (auto simp: render_from_Cons simp del: render_from.simps(2))
  next
    case False
    then show ?thesis
      using Cons.IH [of "dl @ [firstLetter_of up c]"]
      by (auto simp: render_from_Cons simp del: render_from.simps(2))
  qed
qed

lemma letter_before_first_contact:
  "render_from up dl cs = pre @ LetterElement l # post \<Longrightarrow>
   l \<notin> set dl
   \<and> (\<exists>c initials post'. post = DividerElement # ContactElement c initials # post'
         \<and> firstLetter_of up c = l)
   \<and> (\<forall>c' \<in> set (contacts_shown pre). firstLetter_of up c' \<noteq> l)"
proof (induction cs arbitrary: dl pre)
  case Nil
  then show ?case by simp
next
  case (Cons c cs)
  let ?l = "firstLetter_of up c"
  let ?ce = "ContactElement c (fst (getInitialsAndFirstLetter up c))"
  show ?case
  proof (cases "?l \<in> set dl")
    case True
    with Cons.prems have eq: "?ce # render_from up dl cs = pre @ LetterElement l # post"
      by (simp add: render_from_Cons del: render_from.simps(2))
    then obtain pre' where pre: "pre = ?ce # pre'"
      and rest: "render_from up dl cs = pre' @ LetterElement l # post"
      by (cases pre) auto
    from Cons.IH [OF rest] True show ?thesis
      by (auto simp: pre)
  next
    case False
    with Cons.prems have eq: "LetterElement ?l # DividerElement # ?ce
        # render_from up (dl @ [?l]) cs = pre @ LetterElement l # post"
      by (simp add: render_from_Cons del: render_from.simps(2))
    show ?thesis
    proof (cases pre)
      case Nil
      with eq False show ?thesis by auto
    next
      case (Cons n1 pre1)
      with eq have n1: "n1 = LetterElement ?l"
        and eq1: "DividerElement # ?ce # render_from up (dl @ [?l]) cs = pre1 @ LetterElement l # post"
        by auto
      from eq1 obtain pre2 where pre1: "pre1 = DividerElement # pre2"
        and eq2: "?ce # render_from up (dl @ [?l]) cs = pre2 @ LetterElement l # post"
        by (cases pre1) auto
      from eq2 obtain pre3 where pre2: "pre2 = ?ce # pre3"
        and rest: "render_from up (dl @ [?l]) cs = pre3 @ LetterElement l # post"
        by (cases pre2) auto
      from Cons.IH [OF rest] show ?thesis
        by (auto simp: Cons n1 pre1 pre2)
    qed
  qed
qed

lemma contact_after_its_letter:
  "render_from up dl cs = pre @ ContactElement c initials # post \<Longrightarrow>
   firstLetter_of up c \<in> set dl \<or> firstLetter_of up c \<in> set (letters_shown pre)"
proof (induction cs arbitrary: dl pre)
  case Nil
  then show ?case by simp
next
  case (Cons x cs)
  let ?l = "firstLetter_of up x"
  let ?ce = "ContactElement x (fst (getInitialsAndFirstLetter up x))"
  show ?case
  proof (cases "?l \<in> set dl")
    case True
    with Cons.prems have eq: "?ce # render_from up dl cs = pre @ ContactElement c initials # post"
      by (simp add: render_from_Cons del: render_from.simps(2))
    show ?thesis
    proof (cases pre)
      case Nil
      with eq True show ?thesis by auto
    next
      case (Cons n1 pre1)
      with eq have "n1 = ?ce"
        and rest: "render_from up dl cs = pre1 @ ContactElement c initials # post"
        by auto
      with Cons.IH [OF rest] Cons show ?thesis by auto
    qed
  next
    case False
    with Cons.prems have eq: "LetterElement ?l # DividerElement # ?ce
        # render_from up (dl @ [?l]) cs = pre @ ContactElement c initials # post"
      by (simp add: render_from_Cons del: render_from.simps(2))
    then obtain pre1 where pre: "pre = LetterElement ?l # pre1"
      and eq1: "DividerElement # ?ce # render_from up (dl @ [?l]) cs
          = pre1 @ ContactElement c initials # post"
      by (cases pre) auto
    from eq1 obtain pre2 where pre1: "pre1 = DividerElement # pre2"
      and eq2: "?ce # render_from up (dl @ [?l]) cs = pre2 @ ContactElement c initials # post"
      by (cases pre1) auto
    show ?thesis
    proof (cases pre2)
      case Nil
      with eq2 show ?thesis by (auto simp: pre pre1)
    next
      case (Cons n3 pre3)
      with eq2 have rest: "render_from up (dl @ [?l]) cs = pre3 @ ContactElement c initials # post"
        and n3: "n3 = ?ce"
        by auto
      from Cons.IH [OF rest] show ?thesis
        by (auto simp: pre pre1 Cons n3)
    qed
  qed
qed


subsection \<open>The comparator of the examples\<close>

lemma codeunit_compare_flip: "0 < codeunit_compare a b \<Longrightarrow> codeunit_compare b a \<le> 0"
  by (induction a b rule: codeunit_compare.induct) (auto split: if_splits)

lemma codeunit_compare_trans:
  "codeunit_compare a b \<le> 0 \<Longrightarrow> codeunit_compare b c \<le> 0 \<Longrightarrow> codeunit_compare a c \<le> 0"
proof (induction a b arbitrary: c rule: codeunit_compare.induct)
  case 1
  then show ?case by simp
next
  case (2 y ys)
  then show ?case by (cases c) simp_all
next
  case (3 x xs)
  then show ?case by simp
next
  case (4 x xs y ys)
  show ?case
  proof (cases c)
    case Nil
    with "4.prems" show ?thesis by simp
  next
    case (Cons z zs)
    show ?thesis
    proof (cases "char_code x = char_code y \<and> char_code y = char_code z")
      case True
      with "4.prems" Cons have "codeunit_compare xs ys \<le> 0" "codeunit_compare ys zs \<le> 0"
        by simp_all
      with "4.IH" True have "codeunit_compare xs zs \<le> 0" by simp
      with True Cons show ?thesis by simp
    next
      case False
      with "4.prems" Cons show ?thesis
        by (auto split: if_splits)
    qed
  qed
qed

lemma consistent_codeunit_compare: "consistent_comparator codeunit_compare"
  unfolding consistent_comparator_def
  using codeunit_compare_flip codeunit_compare_trans by blast

subsection \<open>\<open>loadContacts\<close> on fetched data\<close>

lemma patched_ids_append: "patched_ids (xs @ ys) = patched_ids xs @ patched_ids ys"
  by (induction xs rule: patched_ids.induct) simp_all

lemma patched_ids_map: "patched_ids (map (\<lambda>c. Patch (f c) (g c)) cs) = map f cs"
  by (induction cs) simp_all

lemma ensureColors_found:
  "\<forall>c \<in> set cs. contact_id c \<in> fst ` set data \<Longrightarrow>
   ensureColorsInDatabase inherited cs data =
     (map (\<lambda>c. Patch (contact_id c) (color c))
        (filter (\<lambda>c. \<not> truthy (color (the (map_of data (contact_id c))))) cs), None)"
proof (induction cs)
  case Nil
  show ?case by simp
next
  case (Cons c cs)
  from Cons.prems have "map_of data (contact_id c) \<noteq> None"
    by (simp add: map_of_eq_None_iff)
  then obtain stored where stored: "map_of data (contact_id c) = Some stored" by blast
  from Cons.prems have rest: "\<forall>c \<in> set cs. contact_id c \<in> fst ` set data" by simp
  show ?case
    by (simp add: stored Cons.IH [OF rest])
qed


lemma sorted_ids_found:
  assumes "ids_agree data"
  shows "\<forall>c \<in> set (sort_by_name cmp (fst (with_colors rnd drawn data))). contact_id c \<in> fst ` set data"
proof
  fix c assume "c \<in> set (sort_by_name cmp (fst (with_colors rnd drawn data)))"
  then have "c \<in> set (fst (with_colors rnd drawn data))"
    by (simp add: set_sort_by_name)
  then have "contact_id c \<in> set (map contact_id (fst (with_colors rnd drawn data)))"
    by simp
  then show "contact_id c \<in> fst ` set data"
    by (simp add: with_colors_ids [OF assms])
qed

lemma processContacts_sorted:
  "fst (processContacts cmp rnd drawn data) = sort_by_name cmp (fst (with_colors rnd drawn data))"
  by (simp add: processContacts_def split: prod.splits)

lemma loadContacts_success:
  assumes "ids_agree data"
  shows "loadContacts inherited up cmp rnd drawn (Json (Some data)) =
     (Returns (sort_by_name cmp (fst (with_colors rnd drawn data))),
      map (\<lambda>c. Patch (contact_id c) (color c))
        (filter (\<lambda>c. \<not> truthy (color (the (map_of data (contact_id c)))))
           (sort_by_name cmp (fst (with_colors rnd drawn data))))
      @ [Render (renderContactsList up (sort_by_name cmp (fst (with_colors rnd drawn data))))])"
  by (simp add: loadContacts_def processContacts_sorted
      ensureColors_found [OF sorted_ids_found [OF assms]] Let_def)

lemma loadContacts_returns_sorted_or_nothing:
  "fst (loadContacts inherited up cmp rnd drawn (Json (Some data))) = Returns []
   \<or> fst (loadContacts inherited up cmp rnd drawn (Json (Some data))) =
       Returns (sort_by_name cmp (fst (with_colors rnd drawn data)))"
proof -
  obtain patches thrown where
    e: "ensureColorsInDatabase inherited (sort_by_name cmp (fst (with_colors rnd drawn data))) data
        = (patches, thrown)"
    by (cases "ensureColorsInDatabase inherited (sort_by_name cmp (fst (with_colors rnd drawn data))) data")
  show ?thesis
    by (cases thrown) (simp_all add: loadContacts_def processContacts_sorted e Let_def)
qed

lemma loadContacts_returned_colors:
  assumes ret: "fst (loadContacts inherited up cmp rnd drawn response) = Returns cs"
  shows "\<forall>c \<in> set cs. truthy (color c)"
proof (cases response)
  case Throws
  with ret have "cs = []" by (simp add: loadContacts_def)
  then show ?thesis by simp
next
  case (Json body)
  show ?thesis
  proof (cases body)
    case None
    with Json ret show ?thesis by (simp add: loadContacts_def)
  next
    case (Some data)
    from loadContacts_returns_sorted_or_nothing [of inherited up cmp rnd drawn data] ret
    have "cs = [] \<or> cs = sort_by_name cmp (fst (with_colors rnd drawn data))"
      unfolding Json Some by auto
    then show ?thesis
      using with_colors_truthy [of rnd drawn data] by (auto simp: set_sort_by_name)
  qed
qed

lemma with_colors_names:
  "ids_agree data \<Longrightarrow>
   map (\<lambda>c. (contact_id c, name c)) (fst (with_colors rnd drawn data)) =
   map (\<lambda>(key, stored). (key, name stored)) data"
proof (induction data arbitrary: drawn)
  case Nil
  show ?case by simp
next
  case (Cons entry data)
  obtain key c where entry: "entry = (key, c)" by (cases entry)
  from Cons.prems have head: "(case own_id c of None \<Rightarrow> key | Some i \<Rightarrow> i) = key"
    and rest: "ids_agree data"
    unfolding entry ids_agree_Cons by simp_all
  show ?case unfolding entry with_colors_Cons by (simp add: head Cons.IH [OF rest])
qed

lemma sorted_origin:
  assumes "ids_agree data"
    and "c \<in> set (sort_by_name cmp (fst (with_colors rnd drawn data)))"
  shows "\<exists>stored. (contact_id c, stored) \<in> set data
     \<and> (truthy (color stored) \<longrightarrow> color c = color stored)
     \<and> (\<not> truthy (color stored) \<longrightarrow>
          (\<exists>hs. color c = JStr (CHR ''#'' # hs) \<and> length hs = 6 \<and> set hs \<subseteq> set letters))"
proof -
  from assms(2) have "c \<in> set (fst (with_colors rnd drawn data))"
    by (simp add: set_sort_by_name)
  from with_colors_origin [OF assms(1) this] obtain stored where
    st: "(contact_id c, stored) \<in> set data"
      "truthy (color stored) \<longrightarrow> color c = color stored"
      "\<not> truthy (color stored) \<longrightarrow> (\<exists>d. color c = JStr (fst (generateRandomColor rnd d)))"
    by blast
  have "\<not> truthy (color stored) \<longrightarrow>
      (\<exists>hs. color c = JStr (CHR ''#'' # hs) \<and> length hs = 6 \<and> set hs \<subseteq> set letters)"
  proof
    assume "\<not> truthy (color stored)"
    with st(3) obtain d where col: "color c = JStr (fst (generateRandomColor rnd d))" by blast
    from generateRandomColor_hex [of rnd d] obtain hs where
      "fst (generateRandomColor rnd d) = CHR ''#'' # hs" "length hs = 6" "set hs \<subseteq> set letters"
      by blast
    with col show "\<exists>hs. color c = JStr (CHR ''#'' # hs) \<and> length hs = 6 \<and> set hs \<subseteq> set letters"
      by simp
  qed
  with st(1) st(2) show ?thesis by blast
qed

lemma distinct_sorted_ids:
  assumes "ids_agree data" and "distinct (map fst data)"
  shows "distinct (map contact_id (sort_by_name cmp (fst (with_colors rnd drawn data))))"
proof -
  have "mset (map contact_id (sort_by_name cmp (fst (with_colors rnd drawn data)))) =
      mset (map contact_id (fst (with_colors rnd drawn data)))"
    by (simp add: mset_sort_by_name)
  also have "\<dots> = mset (map fst data)"
    by (simp only: with_colors_ids [OF assms(1)])
  finally have "mset (map contact_id (sort_by_name cmp (fst (with_colors rnd drawn data)))) =
      mset (map fst data)" .
  then show ?thesis using assms(2) by (rule mset_eq_imp_distinct_iff [THEN iffD2])
qed

lemma sorted_keys:
  assumes "ids_agree data"
  shows "contact_id ` set (sort_by_name cmp (fst (with_colors rnd drawn data))) = fst ` set data"
proof -
  have "contact_id ` set (sort_by_name cmp (fst (with_colors rnd drawn data))) =
      set (map contact_id (fst (with_colors rnd drawn data)))"
    by (simp add: set_sort_by_name)
  also have "\<dots> = set (map fst data)"
    by (simp only: with_colors_ids [OF assms])
  finally show ?thesis by simp
qed

lemma patched_exactly_lacking:
  assumes agree: "ids_agree data" and dist: "distinct (map fst data)"
  shows "contact_id ` set (filter (\<lambda>c. \<not> truthy (color (the (map_of data (contact_id c)))))
             (sort_by_name cmp (fst (with_colors rnd drawn data)))) =
         {key. \<exists>stored. (key, stored) \<in> set data \<and> \<not> truthy (color stored)}"
    (is "contact_id ` set (filter ?lacking ?cs) = ?R")
proof (intro set_eqI iffI)
  fix key assume "key \<in> contact_id ` set (filter ?lacking ?cs)"
  then obtain c where c: "c \<in> set ?cs" "?lacking c" "key = contact_id c"
    by auto
  from c(1) have "contact_id c \<in> contact_id ` set ?cs" by (rule imageI)
  then have "contact_id c \<in> fst ` set data"
    unfolding sorted_keys [OF agree] .
  then obtain stored where st: "(contact_id c, stored) \<in> set data" by auto
  have "map_of data (contact_id c) = Some stored"
    using dist st by (rule map_of_is_SomeI)
  with c(2) have "\<not> truthy (color stored)" by simp
  with st c(3) show "key \<in> ?R" by blast
next
  fix key assume "key \<in> ?R"
  then obtain stored where st: "(key, stored) \<in> set data" "\<not> truthy (color stored)" by blast
  from st(1) have "fst (key, stored) \<in> fst ` set data" by (rule imageI)
  then have "key \<in> contact_id ` set ?cs"
    unfolding sorted_keys [OF agree] by simp
  then obtain c where c: "c \<in> set ?cs" "contact_id c = key" by auto
  have "map_of data key = Some stored"
    using dist st(1) by (rule map_of_is_SomeI)
  with c(2) st(2) have "?lacking c" by simp
  with c(1) have "c \<in> set (filter ?lacking ?cs)" by simp
  then have "contact_id c \<in> contact_id ` set (filter ?lacking ?cs)" by (rule imageI)
  then show "key \<in> contact_id ` set (filter ?lacking ?cs)" unfolding c(2) .
qed

lemma patches_carry_colors:
  assumes "Patch key v \<in> set (map (\<lambda>c. Patch (contact_id c) (color c)) (filter P cs) @ [Render nodes])"
  shows "\<exists>c \<in> set cs. contact_id c = key \<and> color c = v"
proof -
  from assms have "Patch key v \<in> (\<lambda>c. Patch (contact_id c) (color c)) ` set (filter P cs)"
    by simp
  then obtain c where "c \<in> set (filter P cs)" "Patch key v = Patch (contact_id c) (color c)"
    by (rule imageE)
  then have "c \<in> set cs" "contact_id c = key" "color c = v" by simp_all
  then show ?thesis by blast
qed

text \<open>
  Claim C5. Every contact in the array that \<open>loadContacts\<close> returns has a
  truthy, hence non-empty, \<open>color\<close>, whatever the fetch gave. On fetched data
  whose keys are distinct, as the keys of an object are, and whose records hold
  their own key as \<open>id\<close> if they hold one: each returned contact keeps the
  colour of its stored record when that has one, and otherwise has a \<open>#\<close>
  followed by six of the hexadecimal digits; the \<open>PATCH\<close>es go, once each, to
  exactly the contacts whose fetched record had no colour, and each carries the
  colour of the returned contact of that id.
\<close>

theorem loadContacts_colors:
  "(\<forall>cs. fst (loadContacts inherited up cmp rnd drawn response) = Returns cs \<longrightarrow>
       (\<forall>c \<in> set cs. truthy (color c)))
   \<and> (ids_agree data \<and> distinct (map fst data) \<longrightarrow>
       (\<exists>cs effs. loadContacts inherited up cmp rnd drawn (Json (Some data)) = (Returns cs, effs)
          \<and> (\<forall>c \<in> set cs. \<exists>stored. (contact_id c, stored) \<in> set data
                \<and> (truthy (color stored) \<longrightarrow> color c = color stored)
                \<and> (\<not> truthy (color stored) \<longrightarrow>
                     (\<exists>hs. color c = JStr (CHR ''#'' # hs) \<and> length hs = 6
                        \<and> set hs \<subseteq> set letters)))
          \<and> distinct (patched_ids effs)
          \<and> set (patched_ids effs) =
               {key. \<exists>stored. (key, stored) \<in> set data \<and> \<not> truthy (color stored)}
          \<and> (\<forall>key v. Patch key v \<in> set effs \<longrightarrow>
                (\<exists>c \<in> set cs. contact_id c = key \<and> color c = v))))"
proof (intro conjI allI impI)
  fix cs assume "fst (loadContacts inherited up cmp rnd drawn response) = Returns cs"
  then show "\<forall>c \<in> set cs. truthy (color c)"
    by (rule loadContacts_returned_colors)
next
  assume hyp: "ids_agree data \<and> distinct (map fst data)"
  then have agree: "ids_agree data" and dist: "distinct (map fst data)" by simp_all
  let ?cs = "sort_by_name cmp (fst (with_colors rnd drawn data))"
  let ?lacking = "\<lambda>c. \<not> truthy (color (the (map_of data (contact_id c))))"
  let ?effs = "map (\<lambda>c. Patch (contact_id c) (color c)) (filter ?lacking ?cs)
      @ [Render (renderContactsList up ?cs)]"
  have run: "loadContacts inherited up cmp rnd drawn (Json (Some data)) = (Returns ?cs, ?effs)"
    by (rule loadContacts_success [OF agree])
  have origin: "\<forall>c \<in> set ?cs. \<exists>stored. (contact_id c, stored) \<in> set data
      \<and> (truthy (color stored) \<longrightarrow> color c = color stored)
      \<and> (\<not> truthy (color stored) \<longrightarrow>
           (\<exists>hs. color c = JStr (CHR ''#'' # hs) \<and> length hs = 6 \<and> set hs \<subseteq> set letters))"
  proof
    fix c assume "c \<in> set ?cs"
    with agree show "\<exists>stored. (contact_id c, stored) \<in> set data
      \<and> (truthy (color stored) \<longrightarrow> color c = color stored)
      \<and> (\<not> truthy (color stored) \<longrightarrow>
           (\<exists>hs. color c = JStr (CHR ''#'' # hs) \<and> length hs = 6 \<and> set hs \<subseteq> set letters))"
      by (rule sorted_origin)
  qed
  have ids: "patched_ids ?effs = map contact_id (filter ?lacking ?cs)"
    by (simp add: patched_ids_append patched_ids_map)
  have d: "distinct (patched_ids ?effs)"
    unfolding ids using distinct_sorted_ids [OF agree dist] by (rule distinct_map_filter)
  have s: "set (patched_ids ?effs) =
      {key. \<exists>stored. (key, stored) \<in> set data \<and> \<not> truthy (color stored)}"
    unfolding ids set_map by (rule patched_exactly_lacking [OF agree dist])
  have p: "\<forall>key v. Patch key v \<in> set ?effs \<longrightarrow> (\<exists>c \<in> set ?cs. contact_id c = key \<and> color c = v)"
  proof (intro allI impI)
    fix key v assume "Patch key v \<in> set ?effs"
    then show "\<exists>c \<in> set ?cs. contact_id c = key \<and> color c = v"
      by (rule patches_carry_colors)
  qed
  show "\<exists>cs effs. loadContacts inherited up cmp rnd drawn (Json (Some data)) = (Returns cs, effs)
          \<and> (\<forall>c \<in> set cs. \<exists>stored. (contact_id c, stored) \<in> set data
                \<and> (truthy (color stored) \<longrightarrow> color c = color stored)
                \<and> (\<not> truthy (color stored) \<longrightarrow>
                     (\<exists>hs. color c = JStr (CHR ''#'' # hs) \<and> length hs = 6
                        \<and> set hs \<subseteq> set letters)))
          \<and> distinct (patched_ids effs)
          \<and> set (patched_ids effs) =
               {key. \<exists>stored. (key, stored) \<in> set data \<and> \<not> truthy (color stored)}
          \<and> (\<forall>key v. Patch key v \<in> set effs \<longrightarrow>
                (\<exists>c \<in> set cs. contact_id c = key \<and> color c = v))"
    apply (rule exI [of _ ?cs], rule exI [of _ ?effs])
    apply (intro conjI)
        apply (rule run)
       apply (rule origin)
      apply (rule d)
     apply (rule s)
    apply (rule p)
    done
qed

theorem loadContacts_colors_witness:
  "ids_agree example_contacts \<and> distinct (map fst example_contacts)
   \<and> (\<exists>cs effs. loadContacts on_object_prototype ascii_toUpperCase codeunit_compare (\<lambda>i. 10) 0
                     (Json (Some example_contacts)) = (Returns cs, effs)
          \<and> (\<forall>c \<in> set cs. \<exists>stored. (contact_id c, stored) \<in> set example_contacts
                \<and> (truthy (color stored) \<longrightarrow> color c = color stored)
                \<and> (\<not> truthy (color stored) \<longrightarrow>
                     (\<exists>hs. color c = JStr (CHR ''#'' # hs) \<and> length hs = 6
                        \<and> set hs \<subseteq> set letters)))
          \<and> distinct (patched_ids effs)
          \<and> set (patched_ids effs) =
               {key. \<exists>stored. (key, stored) \<in> set example_contacts \<and> \<not> truthy (color stored)}
          \<and> (\<forall>key v. Patch key v \<in> set effs \<longrightarrow>
                (\<exists>c \<in> set cs. contact_id c = key \<and> color c = v)))"
proof -
  have agree: "ids_agree example_contacts"
    by (simp add: ids_agree_def example_contacts_def)
  have dist: "distinct (map fst example_contacts)"
    by (simp add: example_contacts_def)
  note concl = loadContacts_colors [where data = example_contacts and inherited = on_object_prototype
      and up = ascii_toUpperCase
      and cmp = codeunit_compare and rnd = "\<lambda>i. 10" and drawn = 0,
      THEN conjunct2, THEN mp, OF conjI [OF agree dist]]
  show ?thesis
    by (intro conjI) (rule agree, rule dist, rule concl)
qed

lemma with_colors_example:
  "fst (with_colors (\<lambda>i. 10) 0 example_contacts) =
    [\<lparr>name = ''Bob Stone'', email = JStr ''bob@example.com'', phone = JUndefined,
      password = JStr ''pw'', color = JStr ''#AAAAAA'', contact_id = ''-K1''\<rparr>,
     \<lparr>name = ''Ada Lovelace'', email = JStr ''ada@example.com'', phone = JStr ''0123'',
      password = JUndefined, color = JStr ''#A3C5D8'', contact_id = ''-K2''\<rparr>,
     \<lparr>name = ''Al Khwarizmi'', email = JStr ''al@example.com'', phone = JUndefined,
      password = JStr ''pw'', color = JStr ''#AAAAAA'', contact_id = ''-K3''\<rparr>]"
  by (simp add: example_contacts_def with_colors_Cons generateRandomColor_constant replicate_6
      letters_def del: with_colors.simps(2))

lemma render_is_unique:
  assumes "Render n \<in> set (map (\<lambda>c. Patch (contact_id c) (color c)) xs @ [Render nodes])"
  shows "n = nodes"
proof -
  from assms have "Render n \<in> (\<lambda>c. Patch (contact_id c) (color c)) ` set xs \<or> n = nodes"
    by auto
  then show ?thesis by auto
qed

lemma mset_sorted_names:
  assumes "ids_agree data"
  shows "mset (map (\<lambda>c. (contact_id c, name c)) (sort_by_name cmp (fst (with_colors rnd drawn data))))
     = mset (map (\<lambda>(key, stored). (key, name stored)) data)"
proof -
  have "mset (map (\<lambda>c. (contact_id c, name c)) (sort_by_name cmp (fst (with_colors rnd drawn data))))
      = image_mset (\<lambda>c. (contact_id c, name c)) (mset (sort_by_name cmp (fst (with_colors rnd drawn data))))"
    by simp
  also have "\<dots> = image_mset (\<lambda>c. (contact_id c, name c)) (mset (fst (with_colors rnd drawn data)))"
    by (simp only: mset_sort_by_name)
  also have "\<dots> = mset (map (\<lambda>c. (contact_id c, name c)) (fst (with_colors rnd drawn data)))"
    by simp
  also have "\<dots> = mset (map (\<lambda>(key, stored). (key, name stored)) data)"
    by (simp only: with_colors_names [OF assms])
  finally show ?thesis .
qed

text \<open>
  Claim C6. For fetched contacts (whose records hold their own key as \<open>id\<close> if
  they hold one) and a consistent \<open>localeCompare\<close>, \<open>loadContacts\<close> returns the
  contacts, each once, sorted by name under \<open>localeCompare\<close>, and renders them
  with \<open>renderContactsList\<close>: the contact elements are the returned contacts in
  order; there is one letter element for each first letter that occurs, and no
  letter twice; a letter element is followed at once by its divider and by a
  contact of that first letter, and no contact before it has that first letter;
  every contact element comes after the letter element of its own first
  letter.
\<close>

theorem loadContacts_sorted_and_grouped:
  assumes cmp: "consistent_comparator cmp" and agree: "ids_agree data"
  shows "\<exists>cs effs nodes.
      loadContacts inherited up cmp rnd drawn (Json (Some data)) = (Returns cs, effs)
    \<and> sorted_wrt (\<lambda>a b. cmp (name a) (name b) \<le> 0) cs
    \<and> mset (map (\<lambda>c. (contact_id c, name c)) cs)
        = mset (map (\<lambda>(key, stored). (key, name stored)) data)
    \<and> Render nodes \<in> set effs
    \<and> (\<forall>n. Render n \<in> set effs \<longrightarrow> n = nodes)
    \<and> contacts_shown nodes = cs
    \<and> distinct (letters_shown nodes)
    \<and> set (letters_shown nodes) = firstLetter_of up ` set cs
    \<and> (\<forall>pre l post. nodes = pre @ LetterElement l # post \<longrightarrow>
          (\<exists>c initials post'. post = DividerElement # ContactElement c initials # post'
              \<and> firstLetter_of up c = l)
          \<and> (\<forall>c' \<in> set (contacts_shown pre). firstLetter_of up c' \<noteq> l))
    \<and> (\<forall>pre c initials post. nodes = pre @ ContactElement c initials # post \<longrightarrow>
          firstLetter_of up c \<in> set (letters_shown pre))"
proof -
  let ?cs = "sort_by_name cmp (fst (with_colors rnd drawn data))"
  let ?lacking = "\<lambda>c. \<not> truthy (color (the (map_of data (contact_id c))))"
  let ?nodes = "renderContactsList up ?cs"
  let ?effs = "map (\<lambda>c. Patch (contact_id c) (color c)) (filter ?lacking ?cs) @ [Render ?nodes]"
  have run: "loadContacts inherited up cmp rnd drawn (Json (Some data)) = (Returns ?cs, ?effs)"
    by (rule loadContacts_success [OF agree])
  have srt: "sorted_wrt (\<lambda>a b. cmp (name a) (name b) \<le> 0) ?cs"
    by (rule sorted_sort_by_name [OF cmp])
  have perm: "mset (map (\<lambda>c. (contact_id c, name c)) ?cs)
      = mset (map (\<lambda>(key, stored). (key, name stored)) data)"
    by (rule mset_sorted_names [OF agree])
  have rin: "Render ?nodes \<in> set ?effs" by simp
  have runi: "\<forall>n. Render n \<in> set ?effs \<longrightarrow> n = ?nodes"
  proof (intro allI impI)
    fix n assume "Render n \<in> set ?effs"
    then show "n = ?nodes" by (rule render_is_unique)
  qed
  have shown: "contacts_shown ?nodes = ?cs"
    unfolding renderContactsList_def by (rule contacts_shown_render)
  have ldist: "distinct (letters_shown ?nodes)"
    unfolding renderContactsList_def using letters_shown_render [of up "[]" ?cs] by simp
  have lset: "set (letters_shown ?nodes) = firstLetter_of up ` set ?cs"
    unfolding renderContactsList_def using letters_shown_render [of up "[]" ?cs] by simp
  have before: "\<forall>pre l post. ?nodes = pre @ LetterElement l # post \<longrightarrow>
          (\<exists>c initials post'. post = DividerElement # ContactElement c initials # post'
              \<and> firstLetter_of up c = l)
          \<and> (\<forall>c' \<in> set (contacts_shown pre). firstLetter_of up c' \<noteq> l)"
  proof (intro allI impI)
    fix pre l post assume "?nodes = pre @ LetterElement l # post"
    then have "render_from up [] ?cs = pre @ LetterElement l # post"
      unfolding renderContactsList_def .
    from letter_before_first_contact [OF this]
    show "(\<exists>c initials post'. post = DividerElement # ContactElement c initials # post'
              \<and> firstLetter_of up c = l)
          \<and> (\<forall>c' \<in> set (contacts_shown pre). firstLetter_of up c' \<noteq> l)"
      by simp
  qed
  have after: "\<forall>pre c initials post. ?nodes = pre @ ContactElement c initials # post \<longrightarrow>
          firstLetter_of up c \<in> set (letters_shown pre)"
  proof (intro allI impI)
    fix pre c initials post assume "?nodes = pre @ ContactElement c initials # post"
    then have "render_from up [] ?cs = pre @ ContactElement c initials # post"
      unfolding renderContactsList_def .
    from contact_after_its_letter [OF this]
    show "firstLetter_of up c \<in> set (letters_shown pre)" by simp
  qed
  show ?thesis
    apply (rule exI [of _ ?cs], rule exI [of _ ?effs], rule exI [of _ ?nodes])
    apply (intro conjI)
             apply (rule run)
            apply (rule srt)
           apply (rule perm)
          apply (rule rin)
         apply (rule runi)
        apply (rule shown)
       apply (rule ldist)
      apply (rule lset)
     apply (rule before)
    apply (rule after)
    done
qed

lemma sort_example:
  "map name (sort_by_name codeunit_compare (fst (with_colors (\<lambda>i. 10) 0 example_contacts))) =
     [''Ada Lovelace'', ''Al Khwarizmi'', ''Bob Stone'']"
  unfolding with_colors_example
  by (simp add: sort_by_name_def char_code_def)

lemma letters_example:
  "letters_shown (renderContactsList ascii_toUpperCase
      (sort_by_name codeunit_compare (fst (with_colors (\<lambda>i. 10) 0 example_contacts)))) =
     [''A'', ''B'']"
proof -
  have sorted: "sort_by_name codeunit_compare (fst (with_colors (\<lambda>i. 10) 0 example_contacts)) =
    [\<lparr>name = ''Ada Lovelace'', email = JStr ''ada@example.com'', phone = JStr ''0123'',
      password = JUndefined, color = JStr ''#A3C5D8'', contact_id = ''-K2''\<rparr>,
     \<lparr>name = ''Al Khwarizmi'', email = JStr ''al@example.com'', phone = JUndefined,
      password = JStr ''pw'', color = JStr ''#AAAAAA'', contact_id = ''-K3''\<rparr>,
     \<lparr>name = ''Bob Stone'', email = JStr ''bob@example.com'', phone = JUndefined,
      password = JStr ''pw'', color = JStr ''#AAAAAA'', contact_id = ''-K1''\<rparr>]"
    unfolding with_colors_example by (simp add: sort_by_name_def char_code_def)
  show ?thesis
    unfolding sorted
    by (simp add: renderContactsList_def render_from_Cons firstLetter_of_def
        getInitialsAndFirstLetter_def charAt0_def ascii_toUpperCase_def Let_def
        del: render_from.simps(2))
qed

theorem loadContacts_sorted_and_grouped_witness:
  "consistent_comparator codeunit_compare \<and> ids_agree example_contacts
   \<and> (\<exists>cs effs nodes.
      loadContacts on_object_prototype ascii_toUpperCase codeunit_compare (\<lambda>i. 10) 0 (Json (Some example_contacts))
        = (Returns cs, effs)
    \<and> sorted_wrt (\<lambda>a b. codeunit_compare (name a) (name b) \<le> 0) cs
    \<and> mset (map (\<lambda>c. (contact_id c, name c)) cs)
        = mset (map (\<lambda>(key, stored). (key, name stored)) example_contacts)
    \<and> Render nodes \<in> set effs
    \<and> (\<forall>n. Render n \<in> set effs \<longrightarrow> n = nodes)
    \<and> contacts_shown nodes = cs
    \<and> distinct (letters_shown nodes)
    \<and> set (letters_shown nodes) = firstLetter_of ascii_toUpperCase ` set cs
    \<and> (\<forall>pre l post. nodes = pre @ LetterElement l # post \<longrightarrow>
          (\<exists>c initials post'. post = DividerElement # ContactElement c initials # post'
              \<and> firstLetter_of ascii_toUpperCase c = l)
          \<and> (\<forall>c' \<in> set (contacts_shown pre). firstLetter_of ascii_toUpperCase c' \<noteq> l))
    \<and> (\<forall>pre c initials post. nodes = pre @ ContactElement c initials # post \<longrightarrow>
          firstLetter_of ascii_toUpperCase c \<in> set (letters_shown pre)))
   \<and> map name (sort_by_name codeunit_compare (fst (with_colors (\<lambda>i. 10) 0 example_contacts))) =
       [''Ada Lovelace'', ''Al Khwarizmi'', ''Bob Stone'']
   \<and> letters_shown (renderContactsList ascii_toUpperCase
        (sort_by_name codeunit_compare (fst (with_colors (\<lambda>i. 10) 0 example_contacts)))) =
       [''A'', ''B'']"
proof -
  have agree: "ids_agree example_contacts"
    by (simp add: ids_agree_def example_contacts_def)
  note concl = loadContacts_sorted_and_grouped [OF consistent_codeunit_compare agree,
      where inherited = on_object_prototype and up = ascii_toUpperCase and rnd = "\<lambda>i. 10" and drawn = 0]
  show ?thesis
    by (intro conjI)
      (rule consistent_codeunit_compare, rule agree, rule concl, rule sort_example,
       rule letters_example)
qed

end
